theory Spec2Isabelle
  imports Complex_Main "HOL-Library.Word" "HOL-Library.Sublist"
begin

text \<open>
  A model of two React components of the chat client: the send handler of
  \<open>ChatInterface.tsx\<close>, which turns one submission into a batch of generation tasks and
  runs them one after the other, and the dialog of \<open>PipelineModal.tsx\<close>, which collects
  steps and images and hands them to the pipeline. Handlers are functions on the state
  they read and write. What lies outside the components (the generation client, the clock,
  the file reader, the user pressing stop) enters as an argument, and every effect that
  leaves them (notifications, console lines, requests, store updates) is appended to a log
  inside the state, in the order of the source. An \<open>await\<close> is a plain call: the
  handlers run on one thread and the only user action allowed for while a call is in
  flight is the stop button.
\<close>

section \<open>JavaScript strings\<close>

text \<open>
  A JavaScript string is a sequence of UTF-16 code units. \<open>lit\<close> turns an ASCII literal
  into such a sequence, so that concrete inputs stay readable.
\<close>

type_synonym jsstring = "16 word list"

definition lit :: "string \<Rightarrow> jsstring" where
  "lit s = map (\<lambda>c. of_nat (of_char c)) s"

text \<open>
  The code units that \<open>String.prototype.trim\<close> strips: the WhiteSpace and LineTerminator
  productions of ECMAScript (tab, line feed, vertical tab, form feed, carriage return,
  space, no-break space, U+1680, U+2000 to U+200A, U+2028, U+2029, U+202F, U+205F,
  U+3000 and the byte order mark U+FEFF).
\<close>

definition isWhiteSpace :: "16 word \<Rightarrow> bool" where
  "isWhiteSpace c \<longleftrightarrow>
     c \<in> {9, 10, 11, 12, 13, 32, 160, 5760, 8232, 8233, 8239, 8287, 12288, 65279}
     \<or> (8192 \<le> c \<and> c \<le> 8202)"

definition trim :: "jsstring \<Rightarrow> jsstring" where
  "trim s = rev (dropWhile isWhiteSpace (rev (dropWhile isWhiteSpace s)))"

definition dash :: "16 word" where
  "dash = 45"

definition isDash :: "16 word \<Rightarrow> bool" where
  "isDash c \<longleftrightarrow> c = dash"

text \<open>
  \<open>text.split(/---+/)\<close>: the scan moves left to right; where a run of three or more
  dashes starts, the piece read so far is emitted and the whole run is skipped (the
  quantifier is greedy); any other code unit joins the current piece. The piece after the
  last separator is always emitted, also when it is empty.
\<close>

function splitDashes :: "jsstring \<Rightarrow> jsstring \<Rightarrow> jsstring list" where
  "splitDashes piece [] = [piece]"
| "splitDashes piece (c # cs) =
     (if 3 \<le> length (takeWhile isDash (c # cs))
      then piece # splitDashes [] (dropWhile isDash (c # cs))
      else splitDashes (piece @ [c]) cs)"
  by pat_completeness auto
termination
proof (relation "measure (\<lambda>(piece, s). length s)")
  show "wf (measure (\<lambda>(piece, s). length s))"
    by simp
next
  fix piece :: jsstring and c :: "16 word" and cs :: jsstring
  assume run: "3 \<le> length (takeWhile isDash (c # cs))"
  have "length (dropWhile isDash (c # cs)) \<le> length cs"
  proof (cases "isDash c")
    case True
    then show ?thesis by (simp add: length_dropWhile_le)
  next
    case False
    with run show ?thesis by simp
  qed
  then show "(([], dropWhile isDash (c # cs)), (piece, c # cs)) \<in> measure (\<lambda>(piece, s). length s)"
    by simp
next
  fix piece :: jsstring and c :: "16 word" and cs :: jsstring
  show "((piece @ [c], cs), (piece, c # cs)) \<in> measure (\<lambda>(piece, s). length s)"
    by simp
qed

text \<open>The separator a user types between two prompts, and a text built with it.\<close>

definition tripleDash :: jsstring where
  "tripleDash = [dash, dash, dash]"

fun joinDashes :: "jsstring list \<Rightarrow> jsstring" where
  "joinDashes [] = []"
| "joinDashes [p] = p"
| "joinDashes (p # q # ps) = p @ tripleDash @ joinDashes (q # ps)"

section \<open>Attachments, tasks and notifications\<close>

text \<open>
  A \<open>File\<close> as the upload code sees it: its MIME type and what \<open>FileReader.readAsDataURL\<close>
  yields for it (\<open>None\<close> when the reader fails).
\<close>

record jsfile =
  fileType :: jsstring
  readResult :: "jsstring option"

text \<open>
  \<open>base64Data\<close> is \<open>base64.split(',')[1]\<close>, which is \<open>undefined\<close> (here \<open>None\<close>) when the
  data URL holds no comma.
\<close>

record attachment =
  att_file :: jsfile
  preview :: jsstring
  base64Data :: "jsstring option"
  mimeType :: jsstring

record task =
  task_text :: jsstring
  task_attachments :: "attachment list"

datatype batch_mode = Off | Normal | MultiImage | ImageMultiPrompt

datatype toast_level = Error | Info | Success

text \<open>
  The notifications of \<open>handleSend\<close>. The source passes fixed Chinese sentences to
  \<open>addToast\<close>; each constructor stands for one of them, and the two batch messages carry
  the interpolated \<open>tasks.length\<close>.
\<close>

datatype toast_text =
    EnterApiKeyFirst
  | MultiImageNeedsImage
  | ImageMultiPromptNeedsImage
  | PromptMissing
  | NoValidPrompt
  | BatchStarted nat
  | BatchFinished nat

type_synonym toast = "toast_text \<times> toast_level"

section \<open>Building the batch (handleSend, lines 78 to 119)\<close>

text \<open>
  \<open>text.split(/---+/).map(p => p.trim()).filter(p => p.length > 0)\<close>
\<close>

definition handleSend_prompts :: "jsstring \<Rightarrow> jsstring list" where
  "handleSend_prompts txt = filter (\<lambda>p. 0 < length p) (map trim (splitDashes [] txt))"

text \<open>
  \<open>Array.prototype.map\<close> with the callback receiving the element and its index.
\<close>

definition mapIndexed :: "('a \<Rightarrow> nat \<Rightarrow> 'b) \<Rightarrow> 'a list \<Rightarrow> 'b list" where
  "mapIndexed f xs = map (\<lambda>(x, i). f x i) (zip xs [0..<length xs])"

text \<open>
  \<open>for (let i = 0; i < batchCount; i++) tasks.push({ text, attachments })\<close>, lines 82 to
  84. \<open>batchCount\<close> comes from the UI store and is taken as an integer.
\<close>

function repeatLoop :: "int \<Rightarrow> int \<Rightarrow> task \<Rightarrow> task list \<Rightarrow> task list" where
  "repeatLoop i batchCount t tasks =
     (if i < batchCount then repeatLoop (i + 1) batchCount t (tasks @ [t]) else tasks)"
  by pat_completeness auto
termination
  by (relation "measure (\<lambda>(i, batchCount, t, tasks). nat (batchCount - i))") auto

declare repeatLoop.simps [simp del]

text \<open>
  The task list that \<open>handleSend\<close> builds for a batch, or the error notification with which
  it returns early. A mode that matches no branch leaves \<open>tasks\<close> as the empty array it
  was initialised with.
\<close>

definition handleSend_tasks ::
  "batch_mode \<Rightarrow> int \<Rightarrow> jsstring \<Rightarrow> attachment list \<Rightarrow> toast + task list" where
  "handleSend_tasks batchMode batchCount txt atts =
     (case batchMode of
        Normal \<Rightarrow>
          Inr (repeatLoop 0 batchCount \<lparr>task_text = txt, task_attachments = atts\<rparr> [])
      | MultiImage \<Rightarrow>
          if length atts = 0 then Inl (MultiImageNeedsImage, Error)
          else Inr (map (\<lambda>att. \<lparr>task_text = txt, task_attachments = [att]\<rparr>) atts)
      | ImageMultiPrompt \<Rightarrow>
          if length atts = 0 then Inl (ImageMultiPromptNeedsImage, Error)
          else if trim txt = [] then Inl (PromptMissing, Error)
          else
            let prompts = handleSend_prompts txt in
            if length prompts = 0 then Inl (NoValidPrompt, Error)
            else Inr (mapIndexed (\<lambda>att index.
                   \<lparr>task_text = prompts ! (index mod length prompts),
                    task_attachments = [att]\<rparr>) atts)
      | Off \<Rightarrow> Inr [])"

section \<open>One generation (executeSingleGeneration, lines 149 to 297)\<close>

text \<open>
  A content part: optional text, optional inline data (MIME type and payload) and the
  \<open>thought\<close> flag, which is false when the field is absent.
\<close>

record part =
  part_text :: "jsstring option"
  inlineData :: "(jsstring \<times> jsstring option) option"
  thought :: bool

datatype role = User | Model

text \<open>
  A chat message. The \<open>id\<close> and \<open>timestamp\<close> fields, both read off the clock, are left
  out: no handler modelled here reads them.
\<close>

record chat_message =
  msg_role :: role
  msg_parts :: "part list"
  isError :: bool

record js_error =
  err_name :: jsstring
  err_message :: jsstring

record history_image =
  img_mimeType :: jsstring
  img_base64Data :: "jsstring option"
  img_prompt :: jsstring
  img_modelName :: jsstring

record settings =
  streamResponse :: bool
  modelName :: jsstring

datatype console_entry =
    UserStopped
  | GenerationFailed js_error
  | BatchTaskFailed nat js_error

text \<open>
  One call of the generation client (\<open>generateContent\<close> or \<open>streamGeminiResponse\<close>) with
  the arguments the source passes. \<open>req_history\<close> holds the messages that
  \<open>convertMessagesToHistory\<close> was given, and \<open>req_aborted\<close> tells whether the
  \<open>AbortSignal\<close> handed to the call was aborted while the call was in flight.
\<close>

record request =
  req_streaming :: bool
  req_history :: "chat_message list"
  req_text :: jsstring
  req_images :: "(jsstring option \<times> jsstring) list"
  req_aborted :: bool

text \<open>
  The state that the chat handlers read and write: the fields of the two stores, the
  component's own \<open>batchProgress\<close> and \<open>abortControllerRef\<close> (\<open>None\<close> is \<open>null\<close>,
  \<open>Some b\<close> a controller whose signal has \<open>aborted = b\<close>), and logs of the effects
  that leave the component: notifications, console lines, \<open>updateLastMessage\<close> calls with
  their three arguments, entries handed to \<open>addImageToHistory\<close>, \<open>fetchBalance\<close> calls,
  generation requests, timer delays in milliseconds, and the arguments of every
  \<open>executeSingleGeneration\<close> invocation.
\<close>

record app =
  apiKey :: jsstring
  settings :: settings
  messages :: "chat_message list"
  isLoading :: bool
  batchMode :: batch_mode
  batchCount :: int
  showApiKeyModal :: bool
  batchProgress :: "nat \<times> nat"
  abortController :: "bool option"
  toasts :: "toast list"
  console :: "console_entry list"
  updates :: "(part list \<times> bool \<times> rat option) list"
  imageHistory :: "history_image list"
  balanceFetches :: nat
  requests :: "request list"
  delays :: "nat list"
  invocations :: "task list"

text \<open>
  What the world answers to one invocation: whether \<open>convertMessagesToHistory\<close> throws
  (the only computation ahead of the \<open>try\<close> block), the clock at line 201, whether the
  user presses stop while the call is in flight, the streamed chunks (each with the clock
  reading of its loop iteration), the parts of a non-streamed result, the error with which
  the call rejects or the stream breaks off after its chunks, and the clock after the call.
\<close>

record reply =
  historyError :: "js_error option"
  startTime :: int
  stopPressed :: bool
  chunks :: "(part list \<times> int) list"
  modelParts :: "part list"
  failure :: "js_error option"
  endTime :: int

text \<open>
  \<open>(Date.now() - startTime) / 1000\<close>. JavaScript rounds the quotient to a double; the
  model keeps the exact quotient.
\<close>

definition seconds :: "int \<Rightarrow> rat" where
  "seconds ms = of_int ms / 1000"

definition textPart :: "jsstring \<Rightarrow> part" where
  "textPart t = \<lparr>part_text = Some t, inlineData = None, thought = False\<rparr>"

text \<open>
  Modelled from the spec: the store (\<open>useAppStore\<close>) is not among the sources. The
  transcript is an ordered sequence to which \<open>addMessage\<close> appends a record, and
  \<open>updateLastMessage\<close> replaces the parts and the error flag of the newest record; the
  call is logged with the thinking duration it was given.
\<close>

definition addMessage :: "chat_message \<Rightarrow> app \<Rightarrow> app" where
  "addMessage m st = st\<lparr>messages := messages st @ [m]\<rparr>"

definition updateLastMessage :: "part list \<Rightarrow> bool \<Rightarrow> rat option \<Rightarrow> app \<Rightarrow> app" where
  "updateLastMessage ps err dur st =
     st\<lparr>messages :=
          (case messages st of [] \<Rightarrow> []
           | _ # _ \<Rightarrow> butlast (messages st) @ [(last (messages st))\<lparr>msg_parts := ps, isError := err\<rparr>]),
        updates := updates st @ [(ps, err, dur)]\<rparr>"

definition handleStop :: "app \<Rightarrow> app" where
  "handleStop st =
     (case abortController st of
        None \<Rightarrow> st
      | Some _ \<Rightarrow> st\<lparr>abortController := Some True\<rparr>)"

text \<open>The fallback error text of line 283 and the fallback prompt of line 268.\<close>

definition generationFailedText :: jsstring where
  "generationFailedText =
     [29983, 25104, 22833, 36133, 12290, 35831, 26816, 26597, 24744, 30340, 32593, 32476,
      21644, 32, 65, 80, 73, 32, 75, 101, 121, 12290]"

definition imageGenerationText :: jsstring where
  "imageGenerationText = [22270, 29255, 29983, 25104]"

definition typeError :: js_error where
  "typeError = \<lparr>err_name = lit ''TypeError'', err_message = lit ''undefined''\<rparr>"

text \<open>
  One iteration of \<open>for await (const chunk of stream)\<close>, lines 216 to 224, on the pair
  \<open>(isThinking, thinkingDuration)\<close>: \<open>ps\<close> are the parts of the chunk and \<open>now\<close> is the
  clock reading of line 220.
\<close>

definition streamStep :: "int \<Rightarrow> part list \<Rightarrow> int \<Rightarrow> bool \<times> rat \<Rightarrow> bool \<times> rat" where
  "streamStep start ps now acc =
     (case acc of (isThinking, dur) \<Rightarrow>
        let lastPart = (if ps = [] then None else Some (last ps)) in
        (case lastPart of
           None \<Rightarrow> (isThinking, dur)
         | Some p \<Rightarrow>
             if thought p then (True, seconds (now - start))
             else if isThinking \<and> \<not> thought p then (False, dur)
             else (isThinking, dur)))"

text \<open>The loop over the chunks, with the \<open>updateLastMessage\<close> call of line 226.\<close>

fun streamLoop :: "int \<Rightarrow> (part list \<times> int) list \<Rightarrow> bool \<times> rat \<Rightarrow> app \<Rightarrow> (bool \<times> rat) \<times> app" where
  "streamLoop start [] acc st = (acc, st)"
| "streamLoop start (chunk # rest) acc st =
     (let acc' = streamStep start (fst chunk) (snd chunk) acc
      in streamLoop start rest acc'
           (updateLastMessage (fst chunk) False (if fst acc' then Some (snd acc') else None) st))"

text \<open>Lines 259 to 274: the images of the final model message go to the image history.\<close>

definition collectImages :: "jsstring \<Rightarrow> app \<Rightarrow> app" where
  "collectImages txt st =
     (case messages st of
        [] \<Rightarrow> st
      | _ # _ \<Rightarrow>
          let finalMessage = last (messages st) in
          if msg_role finalMessage = Model then
            let imageParts = filter (\<lambda>p. inlineData p \<noteq> None \<and> \<not> thought p) (msg_parts finalMessage)
            in st\<lparr>imageHistory := imageHistory st @
                 concat (map (\<lambda>p. case inlineData p of
                     None \<Rightarrow> []
                   | Some (mime, payload) \<Rightarrow>
                       [\<lparr>img_mimeType = mime, img_base64Data = payload,
                         img_prompt = (if txt \<noteq> [] then txt else imageGenerationText),
                         img_modelName = modelName (settings st)\<rparr>]) imageParts)\<rparr>
          else st)"

text \<open>
  The body of the \<open>try\<close> block once the call is under way, lines 205 to 274: \<open>Inl\<close> carries
  the exception that reaches the \<open>catch\<close> clause together with the state at that moment.
\<close>

definition generationTry :: "reply \<Rightarrow> jsstring \<Rightarrow> app \<Rightarrow> (js_error \<times> app) + app" where
  "generationTry r txt st =
     (if streamResponse (settings st) then
        (case streamLoop (startTime r) (chunks r) (False, 0) st of
           ((isThinking, dur), st1) \<Rightarrow>
             (case failure r of
                Some e \<Rightarrow> Inl (e, st1)
              | None \<Rightarrow>
                  if isThinking then
                    (case messages st1 of
                       [] \<Rightarrow> Inl (typeError, st1)
                     | _ # _ \<Rightarrow>
                         Inr (collectImages txt
                               (updateLastMessage (msg_parts (last (messages st1))) False
                                  (Some (seconds (endTime r - startTime r))) st1)))
                  else Inr (collectImages txt st1)))
      else
        (case failure r of
           Some e \<Rightarrow> Inl (e, st)
         | None \<Rightarrow>
             let totalDuration = seconds (endTime r - startTime r);
                 hasThought = list_ex thought (modelParts r)
             in Inr (collectImages txt
                      (updateLastMessage (modelParts r) False
                         (if hasThought then Some totalDuration else None) st))))"

text \<open>The \<open>catch\<close> clause, lines 276 to 289.\<close>

definition generationCatch :: "js_error \<Rightarrow> app \<Rightarrow> app" where
  "generationCatch e st =
     (if err_name e = lit ''AbortError'' \<or> abortController st = Some True
      then st\<lparr>console := console st @ [UserStopped]\<rparr>
      else
        let st1 = st\<lparr>console := console st @ [GenerationFailed e]\<rparr>;
            errorText = (if err_message e \<noteq> [] then lit ''Error: '' @ err_message e
                         else generationFailedText)
        in updateLastMessage [textPart errorText] True None st1)"

text \<open>
  Lines 152 to 199 and the start of the call: the loading flag, the user message, the
  empty model message, a fresh \<open>AbortController\<close>, and the request itself. While the call
  is in flight the user may press stop, which runs \<open>handleStop\<close> on that controller.
\<close>

definition generationStart :: "reply \<Rightarrow> jsstring \<Rightarrow> attachment list \<Rightarrow> app \<Rightarrow> app" where
  "generationStart r txt atts st =
     (let currentMessages = messages st;
          st1 = st\<lparr>isLoading := True\<rparr>;
          userParts =
            map (\<lambda>att. \<lparr>part_text = None,
                         inlineData = Some (mimeType att, base64Data att),
                         thought = False\<rparr>) atts
            @ (if txt \<noteq> [] then [textPart txt] else []);
          st2 = addMessage \<lparr>msg_role = User, msg_parts = userParts, isError = False\<rparr> st1;
          st3 = addMessage \<lparr>msg_role = Model, msg_parts = [], isError = False\<rparr> st2;
          imagesPayload = map (\<lambda>a. (base64Data a, mimeType a)) atts;
          st4 = st3\<lparr>abortController := Some False\<rparr>;
          st5 = (if stopPressed r then handleStop st4 else st4)
      in st5\<lparr>requests := requests st5 @
             [\<lparr>req_streaming = streamResponse (settings st5),
               req_history = currentMessages,
               req_text = txt,
               req_images = imagesPayload,
               req_aborted = (abortController st5 = Some True)\<rparr>]\<rparr>)"

text \<open>The \<open>finally\<close> clause, lines 291 to 296.\<close>

definition generationFinally :: "app \<Rightarrow> app" where
  "generationFinally st =
     st\<lparr>isLoading := False, abortController := None, balanceFetches := balanceFetches st + 1\<rparr>"

text \<open>
  The whole handler. The first component of the result is the exception with which the
  returned promise rejects, if any: the \<open>catch\<close> clause handles whatever the \<open>try\<close> block
  throws, so only an exception ahead of that block gets out.
\<close>

definition executeSingleGeneration ::
  "reply \<Rightarrow> jsstring \<Rightarrow> attachment list \<Rightarrow> app \<Rightarrow> js_error option \<times> app" where
  "executeSingleGeneration r txt atts st0 =
     (let st = st0\<lparr>invocations := invocations st0 @ [\<lparr>task_text = txt, task_attachments = atts\<rparr>]\<rparr>
      in case historyError r of
        Some e \<Rightarrow> (Some e, st)
      | None \<Rightarrow>
          (None, generationFinally
                   (case generationTry r txt (generationStart r txt atts st) of
                      Inl (e, s) \<Rightarrow> generationCatch e s
                    | Inr s \<Rightarrow> s)))"

section \<open>The batch loop and handleSend (lines 68 to 147)\<close>

text \<open>
  The body of the batch loop, lines 126 to 136, for task \<open>i\<close>; \<open>r\<close> is what the world
  answers to its generation. The pause of 500 ms follows a generation that returned,
  unless the task is the last one; an exception is caught and logged.
\<close>

definition batchStep :: "reply \<Rightarrow> task list \<Rightarrow> nat \<Rightarrow> app \<Rightarrow> app" where
  "batchStep r tasks i st =
     (let st1 = st\<lparr>batchProgress := (i + 1, length tasks)\<rparr> in
      case executeSingleGeneration r (task_text (tasks ! i)) (task_attachments (tasks ! i)) st1 of
        (None, s) \<Rightarrow>
          if int i < int (length tasks) - 1 then s\<lparr>delays := delays s @ [500]\<rparr> else s
      | (Some e, s) \<Rightarrow> s\<lparr>console := console s @ [BatchTaskFailed (i + 1) e]\<rparr>)"

text \<open>
  \<open>for (let i = 0; i < tasks.length; i++)\<close>, line 125. \<open>env i\<close> is what the world answers
  to the generation of task \<open>i\<close>.
\<close>

function batchLoop :: "(nat \<Rightarrow> reply) \<Rightarrow> task list \<Rightarrow> nat \<Rightarrow> app \<Rightarrow> app" where
  "batchLoop env tasks i st =
     (if i < length tasks then batchLoop env tasks (i + 1) (batchStep (env i) tasks i st)
      else st)"
  by pat_completeness auto
termination
  by (relation "measure (\<lambda>(env, tasks, i, st). length tasks - i)") auto

declare batchLoop.simps [simp del]

definition handleSend ::
  "(nat \<Rightarrow> reply) \<Rightarrow> jsstring \<Rightarrow> attachment list \<Rightarrow> app \<Rightarrow> js_error option \<times> app" where
  "handleSend env txt atts st =
     (if apiKey st = [] then
        (None, st\<lparr>showApiKeyModal := True,
                  toasts := toasts st @ [(EnterApiKeyFirst, Error)]\<rparr>)
      else if batchMode st \<noteq> Off then
        (case handleSend_tasks (batchMode st) (batchCount st) txt atts of
           Inl t \<Rightarrow> (None, st\<lparr>toasts := toasts st @ [t]\<rparr>)
         | Inr tasks \<Rightarrow>
             let st1 = st\<lparr>batchProgress := (0, length tasks)\<rparr>;
                 st2 = st1\<lparr>toasts := toasts st1 @ [(BatchStarted (length tasks), Info)]\<rparr>;
                 st3 = batchLoop env tasks 0 st2
             in (None, st3\<lparr>batchProgress := (0, 0), batchMode := Off,
                           toasts := toasts st3 @ [(BatchFinished (length tasks), Success)]\<rparr>))
      else executeSingleGeneration (env 0) txt atts st)"

text \<open>
  What the console is expected to show for task number \<open>j\<close> (counted from zero) under the
  answer \<open>r\<close>: an exception ahead of the \<open>try\<close> block is logged by the batch loop, a
  failed call by the generation itself, as a stop when the error is an abort or the user
  pressed stop, and a successful call logs nothing.
\<close>

definition expectedConsole :: "reply \<Rightarrow> nat \<Rightarrow> console_entry list" where
  "expectedConsole r j =
     (case historyError r of
        Some e \<Rightarrow> [BatchTaskFailed (j + 1) e]
      | None \<Rightarrow>
          (case failure r of
             None \<Rightarrow> []
           | Some e \<Rightarrow>
               if err_name e = lit ''AbortError'' \<or> stopPressed r then [UserStopped]
               else [GenerationFailed e]))"



section \<open>The pipeline dialog (PipelineModal)\<close>

text \<open>
  Modelled from the spec: the type \<open>PipelineStep\<close> is declared outside the sources; a
  step has an id, a prompt, an optional model override and a status that is one of
  pending, running, done, failed.
\<close>

datatype step_status = Pending | Running | Done | Failed

record pipeline_step =
  step_id :: jsstring
  prompt :: jsstring
  step_modelName :: "jsstring option"
  status :: step_status

datatype pipeline_mode = Serial | Parallel

record modal =
  mode :: pipeline_mode
  steps :: "pipeline_step list"
  attachments :: "attachment list"

text \<open>\<open>Array.prototype.filter\<close> with the callback receiving the element and its index.\<close>

definition filterIndexed :: "('a \<Rightarrow> nat \<Rightarrow> bool) \<Rightarrow> 'a list \<Rightarrow> 'a list" where
  "filterIndexed p xs = map fst (filter (\<lambda>(x, i). p x i) (zip xs [0..<length xs]))"

definition comma :: "16 word" where
  "comma = 44"

text \<open>\<open>base64.split(',')\<close>: every comma ends a piece.\<close>

fun splitComma :: "jsstring \<Rightarrow> jsstring \<Rightarrow> jsstring list" where
  "splitComma piece [] = [piece]"
| "splitComma piece (c # cs) =
     (if c = comma then piece # splitComma [] cs else splitComma (piece @ [c]) cs)"

definition startsWith :: "jsstring \<Rightarrow> jsstring \<Rightarrow> bool" where
  "startsWith s p \<longleftrightarrow> take (length p) s = p"

text \<open>
  The loop of \<open>processFiles\<close>, lines 115 to 131: a file that is no image is skipped, and so
  is one whose read fails (the error is caught and logged).
\<close>

fun newAttachments :: "jsfile list \<Rightarrow> attachment list" where
  "newAttachments [] = []"
| "newAttachments (f # fs) =
     (if startsWith (fileType f) (lit ''image/'') then
        (case readResult f of
           Some base64 \<Rightarrow>
             (let pieces = splitComma [] base64 in
              \<lparr>att_file = f, preview = base64,
               base64Data = (if 1 < length pieces then Some (pieces ! 1) else None),
               mimeType = fileType f\<rparr> # newAttachments fs)
         | None \<Rightarrow> newAttachments fs)
      else newAttachments fs)"

definition processFiles :: "jsfile list \<Rightarrow> modal \<Rightarrow> modal" where
  "processFiles files st = st\<lparr>attachments := take 14 (attachments st @ newAttachments files)\<rparr>"

definition removeAttachment :: "nat \<Rightarrow> modal \<Rightarrow> modal" where
  "removeAttachment index st =
     st\<lparr>attachments := filterIndexed (\<lambda>_ i. i \<noteq> index) (attachments st)\<rparr>"

text \<open>\<open>handleReset\<close>; \<open>now\<close> is \<open>Date.now().toString()\<close>.\<close>

definition handleReset :: "jsstring \<Rightarrow> modal \<Rightarrow> modal" where
  "handleReset now st =
     st\<lparr>mode := Serial,
        steps := [\<lparr>step_id = now, prompt = [], step_modelName = None, status = Pending\<rparr>],
        attachments := []\<rparr>"

text \<open>The state in which the dialog is mounted, lines 63 to 69.\<close>

definition initialModal :: "jsstring \<Rightarrow> modal" where
  "initialModal now =
     \<lparr>mode = Serial,
      steps = [\<lparr>step_id = now, prompt = [], step_modelName = None, status = Pending\<rparr>],
      attachments = []\<rparr>"

text \<open>
  The handlers that only touch the step list and the mode. \<open>handleAddStep\<close> receives the
  fresh id; \<open>handleStepChange\<close> on an index outside the list throws before \<open>setSteps\<close>, so
  the state stays as it is; the arrows that call \<open>handleMoveStep\<close> are disabled at both
  ends of the list, and the model leaves the list alone for an index pair outside it.
\<close>

definition handleAddStep :: "jsstring \<Rightarrow> modal \<Rightarrow> modal" where
  "handleAddStep newId st =
     (if length (steps st) < 5
      then st\<lparr>steps := steps st @
             [\<lparr>step_id = newId, prompt = [], step_modelName = None, status = Pending\<rparr>]\<rparr>
      else st)"

definition handleRemoveStep :: "nat \<Rightarrow> modal \<Rightarrow> modal" where
  "handleRemoveStep index st =
     (if 1 < length (steps st)
      then st\<lparr>steps := filterIndexed (\<lambda>_ i. i \<noteq> index) (steps st)\<rparr>
      else st)"

datatype step_field = PromptField | ModelNameField

definition handleStepChange :: "nat \<Rightarrow> step_field \<Rightarrow> jsstring \<Rightarrow> modal \<Rightarrow> modal" where
  "handleStepChange index field v st =
     (if index < length (steps st) then
        (case field of
           PromptField \<Rightarrow> st\<lparr>steps := (steps st)[index := (steps st ! index)\<lparr>prompt := v\<rparr>]\<rparr>
         | ModelNameField \<Rightarrow>
             st\<lparr>steps := (steps st)[index := (steps st ! index)
                    \<lparr>step_modelName := (if v \<noteq> [] then Some v else None)\<rparr>]\<rparr>)
      else st)"

datatype direction = Up | Down

definition handleMoveStep :: "nat \<Rightarrow> direction \<Rightarrow> modal \<Rightarrow> modal" where
  "handleMoveStep index dir st =
     (let targetIndex = (case dir of Up \<Rightarrow> int index - 1 | Down \<Rightarrow> int index + 1) in
      if index < length (steps st) \<and> 0 \<le> targetIndex \<and> targetIndex < int (length (steps st))
      then st\<lparr>steps := (steps st)[index := steps st ! nat targetIndex,
                                   nat targetIndex := steps st ! index]\<rparr>
      else st)"

record pipeline_template =
  tpl_mode :: pipeline_mode
  tpl_steps :: "jsstring list"

function decimal :: "nat \<Rightarrow> jsstring" where
  "decimal n = (if n < 10 then [of_nat (48 + n)] else decimal (n div 10) @ [of_nat (48 + n mod 10)])"
  by pat_completeness auto
termination
  by (relation "measure (\<lambda>n. n)") auto

declare decimal.simps [simp del]

definition handleApplyTemplate :: "jsstring \<Rightarrow> pipeline_template \<Rightarrow> modal \<Rightarrow> modal" where
  "handleApplyTemplate now template st =
     st\<lparr>mode := tpl_mode template,
        steps := mapIndexed (\<lambda>p idx.
                   \<lparr>step_id = now @ decimal idx, prompt = p, step_modelName = None,
                    status = Pending\<rparr>) (tpl_steps template)\<rparr>"

text \<open>Everything a user can do to the dialog before pressing the execute button.\<close>

datatype modal_op =
    SetMode pipeline_mode
  | AddStep jsstring
  | RemoveStep nat
  | StepChange nat step_field jsstring
  | MoveStep nat direction
  | ApplyTemplate jsstring pipeline_template
  | ProcessFiles "jsfile list"
  | RemoveAttachment nat
  | Reset jsstring

fun applyOp :: "modal_op \<Rightarrow> modal \<Rightarrow> modal" where
  "applyOp (SetMode m) st = st\<lparr>mode := m\<rparr>"
| "applyOp (AddStep newId) st = handleAddStep newId st"
| "applyOp (RemoveStep i) st = handleRemoveStep i st"
| "applyOp (StepChange i field v) st = handleStepChange i field v st"
| "applyOp (MoveStep i dir) st = handleMoveStep i dir st"
| "applyOp (ApplyTemplate now template) st = handleApplyTemplate now template st"
| "applyOp (ProcessFiles files) st = processFiles files st"
| "applyOp (RemoveAttachment i) st = removeAttachment i st"
| "applyOp (Reset now) st = handleReset now st"

fun applyOps :: "modal_op list \<Rightarrow> modal \<Rightarrow> modal" where
  "applyOps [] st = st"
| "applyOps (op # ops) st = applyOps ops (applyOp op st)"

datatype alert = AddAtLeastOneStep | UploadAtLeastOneImage

text \<open>
  What \<open>handleExecute\<close> does, lines 149 to 161: it either shows an alert and returns, or
  calls \<open>onExecute\<close> with the three arguments shown and then \<open>onClose\<close>.
\<close>

datatype execute_outcome =
    Alerted alert
  | Executed pipeline_mode "pipeline_step list" "attachment list"

definition handleExecute :: "modal \<Rightarrow> execute_outcome" where
  "handleExecute st =
     (let validSteps = filter (\<lambda>s. 0 < length (trim (prompt s))) (steps st) in
      if length validSteps = 0 then Alerted AddAtLeastOneStep
      else if length (attachments st) = 0 then Alerted UploadAtLeastOneImage
      else Executed (mode st) validSteps (attachments st))"

section \<open>Sample inputs\<close>

text \<open>Three attachments that differ in their payload, and an idle chat with an API key.\<close>

definition sampleFile :: jsfile where
  "sampleFile = \<lparr>fileType = lit ''image/png'', readResult = Some (lit ''data:image/png;base64,AAAA'')\<rparr>"

definition img0 :: attachment where
  "img0 = \<lparr>att_file = sampleFile, preview = lit ''data:image/png;base64,AAAA'',
           base64Data = Some (lit ''AAAA''), mimeType = lit ''image/png''\<rparr>"

definition img1 :: attachment where
  "img1 = img0\<lparr>base64Data := Some (lit ''BBBB'')\<rparr>"

definition img2 :: attachment where
  "img2 = img0\<lparr>base64Data := Some (lit ''CCCC'')\<rparr>"

text \<open>
  Dialog sessions: one that types a prompt, one that also uploads an image, one with a
  blank step between two written ones, and one that uploads fifteen files at once.
\<close>

definition promptOnly :: "modal_op list" where
  "promptOnly = [StepChange 0 PromptField (lit ''blur'')]"

definition promptAndImage :: "modal_op list" where
  "promptAndImage = [StepChange 0 PromptField (lit ''blur''), ProcessFiles [sampleFile]]"

definition blankMiddleStep :: "modal_op list" where
  "blankMiddleStep =
     [StepChange 0 PromptField (lit ''blur''), AddStep (lit ''2''),
      StepChange 1 PromptField (lit ''  ''), AddStep (lit ''3''),
      StepChange 2 PromptField (lit ''sharpen''), ProcessFiles [sampleFile]]"

definition fifteenFiles :: "modal_op list" where
  "fifteenFiles =
     [StepChange 0 PromptField (lit ''blur''), ProcessFiles (replicate 15 sampleFile),
      RemoveAttachment 20]"

text \<open>A call that succeeds with an empty result after three seconds, nobody pressing stop.\<close>

definition quietReply :: reply where
  "quietReply =
     \<lparr>historyError = None, startTime = 1000, stopPressed = False, chunks = [],
      modelParts = [], failure = None, endTime = 4000\<rparr>"

text \<open>
  Further answers: a call that fails with a network error, a call during which the user
  presses stop and which then rejects with an abort error, a result with a thought part
  followed by a text part, and a result that is a thought part only.
\<close>

definition networkError :: js_error where
  "networkError = \<lparr>err_name = lit ''Error'', err_message = lit ''503''\<rparr>"

definition abortError :: js_error where
  "abortError = \<lparr>err_name = lit ''AbortError'', err_message = lit ''aborted''\<rparr>"

definition failingReply :: reply where
  "failingReply = quietReply\<lparr>failure := Some networkError\<rparr>"

definition cancelledReply :: reply where
  "cancelledReply = quietReply\<lparr>stopPressed := True, failure := Some abortError\<rparr>"

definition thinkingPart :: part where
  "thinkingPart = \<lparr>part_text = Some (lit ''plan''), inlineData = None, thought = True\<rparr>"

definition answerPart :: part where
  "answerPart = textPart (lit ''done'')"

definition mixedReply :: reply where
  "mixedReply = quietReply\<lparr>modelParts := [thinkingPart, answerPart]\<rparr>"

definition thoughtOnlyReply :: reply where
  "thoughtOnlyReply = quietReply\<lparr>modelParts := [thinkingPart]\<rparr>"

text \<open>
  Batches in repeat mode: the second task fails, or the user stops the second task.
\<close>

definition secondFails :: "nat \<Rightarrow> reply" where
  "secondFails j = (if j = 1 then failingReply else quietReply)"



definition catTask :: task where
  "catTask = \<lparr>task_text = lit ''cat'', task_attachments = []\<rparr>"

definition idleApp :: app where
  "idleApp =
     \<lparr>apiKey = lit ''sk-123'',
      settings = \<lparr>streamResponse = False, modelName = lit ''gemini-3-pro-image-preview''\<rparr>,
      messages = [], isLoading = False, batchMode = Off, batchCount = 2,
      showApiKeyModal = False, batchProgress = (0, 0), abortController = None,
      toasts = [], console = [], updates = [], imageHistory = [], balanceFetches = 0,
      requests = [], delays = [], invocations = []\<rparr>"

section \<open>Splitting and trimming\<close>

lemma mapIndexed_eq_map_upt: "mapIndexed f xs = map (\<lambda>i. f (xs ! i) i) [0..<length xs]"
  unfolding mapIndexed_def
  by (rule nth_equalityI) simp_all

lemma trim_eq_Nil_iff: "trim s = [] \<longleftrightarrow> (\<forall>c\<in>set s. isWhiteSpace c)"
proof -
  have "trim s = [] \<longleftrightarrow> (\<forall>c\<in>set (dropWhile isWhiteSpace s). isWhiteSpace c)"
    by (simp add: trim_def dropWhile_eq_Nil_conv)
  also have "\<dots> \<longleftrightarrow> dropWhile isWhiteSpace (dropWhile isWhiteSpace s) = []"
    by (simp only: dropWhile_eq_Nil_conv)
  also have "\<dots> \<longleftrightarrow> (\<forall>c\<in>set s. isWhiteSpace c)"
    by (simp add: dropWhile_eq_Nil_conv)
  finally show ?thesis .
qed

lemma dash_not_WhiteSpace: "\<not> isWhiteSpace dash"
  by (simp add: isWhiteSpace_def dash_def)

lemma splitDashes_no_dash: "dash \<notin> set s \<Longrightarrow> splitDashes acc s = [acc @ s]"
proof (induction s arbitrary: acc)
  case Nil
  then show ?case by simp
next
  case (Cons c cs)
  then have "\<not> isDash c" by (auto simp: isDash_def)
  with Cons show ?case by simp
qed

lemma splitDashes_append: "dash \<notin> set p \<Longrightarrow> splitDashes acc (p @ r) = splitDashes (acc @ p) r"
proof (induction p arbitrary: acc)
  case Nil
  then show ?case by simp
next
  case (Cons c cs)
  then have "\<not> isDash c" by (auto simp: isDash_def)
  with Cons show ?case by simp
qed

lemma splitDashes_tripleDash:
  assumes "r = [] \<or> hd r \<noteq> dash"
  shows "splitDashes acc (tripleDash @ r) = acc # splitDashes [] r"
proof -
  have d: "dropWhile isDash r = r"
    using assms by (cases r) (auto simp: isDash_def)
  have e: "tripleDash @ r = dash # dash # dash # r"
    by (simp add: tripleDash_def)
  have run: "3 \<le> length (takeWhile isDash (dash # dash # dash # r))"
    by (simp add: isDash_def)
  have rest: "dropWhile isDash (dash # dash # dash # r) = r"
    using d by (simp add: isDash_def)
  have "splitDashes acc (dash # dash # dash # r) = acc # splitDashes [] r"
    using run rest by (simp only: splitDashes.simps if_True)
  then show ?thesis by (simp only: e)
qed

lemma hd_joinDashes: "ps \<noteq> [] \<Longrightarrow> hd ps \<noteq> [] \<Longrightarrow> hd (joinDashes ps) = hd (hd ps)"
  by (induction ps rule: joinDashes.induct) simp_all

lemma splitDashes_joinDashes:
  "ps \<noteq> [] \<Longrightarrow> \<forall>p\<in>set ps. p \<noteq> [] \<and> dash \<notin> set p \<Longrightarrow> splitDashes [] (joinDashes ps) = ps"
proof (induction ps rule: joinDashes.induct)
  case 1
  then show ?case by simp
next
  case (2 p)
  then show ?case by (simp add: splitDashes_no_dash)
next
  case (3 p q ps)
  have q: "q \<noteq> []" "dash \<notin> set q" using 3 by auto
  then have "hd q \<noteq> dash" by (cases q) auto
  then have "hd (joinDashes (q # ps)) \<noteq> dash"
    using q by (simp add: hd_joinDashes)
  then have "splitDashes p (tripleDash @ joinDashes (q # ps)) = p # splitDashes [] (joinDashes (q # ps))"
    by (simp add: splitDashes_tripleDash)
  moreover have "splitDashes [] (p @ tripleDash @ joinDashes (q # ps)) = splitDashes p (tripleDash @ joinDashes (q # ps))"
    using 3 by (simp add: splitDashes_append)
  ultimately show ?case using 3 by simp
qed

lemma prompts_blank: "trim txt = [] \<Longrightarrow> handleSend_prompts txt = []"
proof -
  assume b: "trim txt = []"
  then have "dash \<notin> set txt"
    using dash_not_WhiteSpace by (auto simp: trim_eq_Nil_iff)
  then show ?thesis using b by (simp add: handleSend_prompts_def splitDashes_no_dash)
qed

lemma prompts_joinDashes:
  assumes "ps \<noteq> []" and "\<forall>p\<in>set ps. p \<noteq> [] \<and> dash \<notin> set p"
  shows "handleSend_prompts (joinDashes ps) = filter (\<lambda>p. 0 < length p) (map trim ps)"
  using assms by (simp add: handleSend_prompts_def splitDashes_joinDashes)

text \<open>
  How the scan treats a run of dashes inside any text: the pieces of a text that is cut
  between two places where no run of dashes crosses, and what a run of \<open>k\<close> dashes does
  to the piece read so far.
\<close>

lemma splitDashes_not_Nil: "splitDashes acc s \<noteq> []"
  by (induction acc s rule: splitDashes.induct) simp_all

lemma splitDashes_acc:
  "splitDashes acc s = (acc @ hd (splitDashes [] s)) # tl (splitDashes [] s)"
proof -
  have "\<forall>a. splitDashes a s = (a @ hd (splitDashes [] s)) # tl (splitDashes [] s)"
  proof (induction acc s rule: splitDashes.induct)
    case (1 piece)
    show ?case by simp
  next
    case (2 piece c cs)
    show ?case
    proof (cases "3 \<le> length (takeWhile isDash (c # cs))")
      case True
      then show ?thesis by simp
    next
      case False
      from 2(2) [OF False] have ih: "\<And>a. splitDashes a cs = (a @ hd (splitDashes [] cs)) # tl (splitDashes [] cs)"
        by blast
      show ?thesis
      proof
        fix a
        have "splitDashes a (c # cs) = splitDashes (a @ [c]) cs"
          using False by simp
        also have "\<dots> = ((a @ [c]) @ hd (splitDashes [] cs)) # tl (splitDashes [] cs)"
          by (rule ih)
        finally have l: "splitDashes a (c # cs) = (a @ c # hd (splitDashes [] cs)) # tl (splitDashes [] cs)"
          by simp
        have "splitDashes [] (c # cs) = splitDashes [c] cs"
          using False by simp
        also have "\<dots> = ([c] @ hd (splitDashes [] cs)) # tl (splitDashes [] cs)"
          by (rule ih)
        finally have r: "splitDashes [] (c # cs) = (c # hd (splitDashes [] cs)) # tl (splitDashes [] cs)"
          by simp
        show "splitDashes a (c # cs) = (a @ hd (splitDashes [] (c # cs))) # tl (splitDashes [] (c # cs))"
          by (simp only: l r list.sel)
      qed
    qed
  qed
  then show ?thesis by blast
qed

lemma run_over_append:
  assumes "u \<noteq> []" and "last u \<noteq> dash \<or> s = [] \<or> hd s \<noteq> dash"
  shows "takeWhile isDash (u @ s) = takeWhile isDash u"
    and "dropWhile isDash (u @ s) = dropWhile isDash u @ s"
proof -
  have "takeWhile isDash (u @ s) = takeWhile isDash u \<and> dropWhile isDash (u @ s) = dropWhile isDash u @ s"
  proof (cases "\<forall>x\<in>set u. isDash x")
    case True
    with assms(1) have "last u = dash" by (auto simp: isDash_def)
    with assms(2) have "s = [] \<or> hd s \<noteq> dash" by simp
    then have ss: "takeWhile isDash s = [] \<and> dropWhile isDash s = s"
      by (cases s) (auto simp: isDash_def)
    have 1: "takeWhile isDash (u @ s) = u @ takeWhile isDash s"
      using True by (simp add: takeWhile_append2)
    have 2: "dropWhile isDash (u @ s) = dropWhile isDash s"
      using True by (simp add: dropWhile_append2)
    have 3: "takeWhile isDash u = u" "dropWhile isDash u = []"
      using True by simp_all
    show ?thesis unfolding 1 2 3 using ss by simp
  next
    case False
    then obtain x where "x \<in> set u" "\<not> isDash x" by blast
    then show ?thesis by (simp add: takeWhile_append1 dropWhile_append1)
  qed
  then show "takeWhile isDash (u @ s) = takeWhile isDash u"
    and "dropWhile isDash (u @ s) = dropWhile isDash u @ s" by simp_all
qed

lemma last_dropWhile: "dropWhile P u \<noteq> [] \<Longrightarrow> last (dropWhile P u) = last u"
  by (induction u) (auto split: if_splits)

lemma splitDashes_append_general:
  assumes "u = [] \<or> last u \<noteq> dash \<or> s = [] \<or> hd s \<noteq> dash"
  shows "splitDashes acc (u @ s) =
           butlast (splitDashes acc u) @ splitDashes (last (splitDashes acc u)) s"
  using assms
proof (induction acc u rule: splitDashes.induct)
  case (1 piece)
  show ?case by simp
next
  case (2 piece c cs)
  from 2(3) have b: "last (c # cs) \<noteq> dash \<or> s = [] \<or> hd s \<noteq> dash" by simp
  note tw = run_over_append(1) [OF _ b] and dw = run_over_append(2) [OF _ b]
  show ?case
  proof (cases "3 \<le> length (takeWhile isDash (c # cs))")
    case True
    let ?d = "dropWhile isDash (c # cs)"
    have pre: "?d = [] \<or> last ?d \<noteq> dash \<or> s = [] \<or> hd s \<noteq> dash"
    proof (cases "?d = []")
      case True
      then show ?thesis by blast
    next
      case False
      then have "last ?d = last (c # cs)" by (rule last_dropWhile)
      with b show ?thesis by simp
    qed
    note ih = 2(1) [OF True pre]
    have "splitDashes piece ((c # cs) @ s) = piece # splitDashes [] (?d @ s)"
      using True tw dw by (simp del: takeWhile.simps dropWhile.simps)
    also have "\<dots> = piece # butlast (splitDashes [] ?d) @ splitDashes (last (splitDashes [] ?d)) s"
      by (simp only: ih)
    also have "\<dots> = butlast (splitDashes piece (c # cs)) @ splitDashes (last (splitDashes piece (c # cs))) s"
      using True by (simp add: splitDashes_not_Nil del: takeWhile.simps dropWhile.simps)
    finally show ?thesis .
  next
    case False
    have pre: "cs = [] \<or> last cs \<noteq> dash \<or> s = [] \<or> hd s \<noteq> dash"
      using b by auto
    note ih = 2(2) [OF False pre]
    have "splitDashes piece ((c # cs) @ s) = splitDashes (piece @ [c]) (cs @ s)"
      using False tw by (simp del: takeWhile.simps dropWhile.simps)
    also have "\<dots> = butlast (splitDashes (piece @ [c]) cs) @ splitDashes (last (splitDashes (piece @ [c]) cs)) s"
      by (rule ih)
    also have "\<dots> = butlast (splitDashes piece (c # cs)) @ splitDashes (last (splitDashes piece (c # cs))) s"
      using False by (simp del: takeWhile.simps dropWhile.simps)
    finally show ?thesis .
  qed
qed

lemma splitDashes_run:
  assumes "r = [] \<or> hd r \<noteq> dash"
  shows "splitDashes acc (replicate k dash @ r) =
     (if 3 \<le> k then acc # splitDashes [] r else splitDashes (acc @ replicate k dash) r)"
proof -
  have d: "dropWhile isDash r = r" "takeWhile isDash r = []"
    using assms by (cases r; auto simp: isDash_def)+
  have a: "\<And>x. x \<in> set (replicate k dash) \<Longrightarrow> isDash x"
    by (simp add: isDash_def)
  have t: "takeWhile isDash (replicate k dash @ r) = replicate k dash"
    using takeWhile_append2 [of "replicate k dash" isDash r, OF a] d by simp
  have w: "dropWhile isDash (replicate k dash @ r) = r"
    using dropWhile_append2 [of "replicate k dash" isDash r, OF a] d by simp
  show ?thesis
  proof (cases "3 \<le> k")
    case True
    then obtain k' where k: "k = Suc k'" by (cases k) auto
    have e: "replicate k dash @ r = dash # (replicate k' dash @ r)"
      by (simp add: k)
    have run: "3 \<le> length (takeWhile isDash (dash # (replicate k' dash @ r)))"
      using True t unfolding e by simp
    have rest: "dropWhile isDash (dash # (replicate k' dash @ r)) = r"
      using w unfolding e .
    have "splitDashes acc (dash # (replicate k' dash @ r)) = acc # splitDashes [] r"
      using run rest by (simp only: splitDashes.simps if_True)
    then show ?thesis using True by (simp only: e if_True)
  next
    case False
    then have "k = 0 \<or> k = 1 \<or> k = 2" by arith
    then show ?thesis
      using assms by (cases r) (auto simp: isDash_def numeral_2_eq_2)
  qed
qed

lemma splitDashes_long_run:
  assumes "u = [] \<or> last u \<noteq> dash" and "r = [] \<or> hd r \<noteq> dash" and "3 \<le> k"
  shows "splitDashes [] (u @ replicate k dash @ r) = splitDashes [] u @ splitDashes [] r"
proof -
  have "splitDashes [] (u @ replicate k dash @ r) =
      butlast (splitDashes [] u) @ splitDashes (last (splitDashes [] u)) (replicate k dash @ r)"
    using assms(1) by (intro splitDashes_append_general) blast
  also have "\<dots> = butlast (splitDashes [] u) @ last (splitDashes [] u) # splitDashes [] r"
    using assms(2,3) by (simp add: splitDashes_run)
  also have "\<dots> = splitDashes [] u @ splitDashes [] r"
    by (simp add: splitDashes_not_Nil)
  finally show ?thesis .
qed

lemma splitDashes_short_run:
  assumes "u = [] \<or> last u \<noteq> dash" and "r = [] \<or> hd r \<noteq> dash" and "k < 3"
  shows "splitDashes [] (u @ replicate k dash @ r) =
     butlast (splitDashes [] u)
     @ [last (splitDashes [] u) @ replicate k dash @ hd (splitDashes [] r)]
     @ tl (splitDashes [] r)"
proof -
  have "splitDashes [] (u @ replicate k dash @ r) =
      butlast (splitDashes [] u) @ splitDashes (last (splitDashes [] u)) (replicate k dash @ r)"
    using assms(1) by (intro splitDashes_append_general) blast
  also have "\<dots> = butlast (splitDashes [] u) @ splitDashes (last (splitDashes [] u) @ replicate k dash) r"
    using assms(2,3) by (simp add: splitDashes_run)
  also have "\<dots> = butlast (splitDashes [] u)
     @ [last (splitDashes [] u) @ replicate k dash @ hd (splitDashes [] r)]
     @ tl (splitDashes [] r)"
    by (subst splitDashes_acc) simp
  finally show ?thesis .
qed

section \<open>The task list of a batch\<close>

lemma repeatLoop_eq:
  "repeatLoop i n t tasks = tasks @ replicate (nat (n - i)) t"
proof (induction i n t tasks rule: repeatLoop.induct)
  case (1 i n t tasks)
  show ?case
  proof (cases "i < n")
    case True
    then have s: "nat (n - i) = Suc (nat (n - (i + 1)))" by simp
    have "repeatLoop i n t tasks = repeatLoop (i + 1) n t (tasks @ [t])"
      using True by (subst repeatLoop.simps) simp
    also have "\<dots> = (tasks @ [t]) @ replicate (nat (n - (i + 1))) t"
      using True by (rule 1)
    also have "\<dots> = tasks @ replicate (nat (n - i)) t"
      by (simp only: s replicate_Suc append_assoc append_Cons append_Nil)
    finally show ?thesis .
  next
    case False
    then show ?thesis by (subst repeatLoop.simps) simp
  qed
qed

lemma image_multi_prompt_tasks:
  assumes "atts \<noteq> []" and "handleSend_prompts txt \<noteq> []"
  shows "handleSend_tasks ImageMultiPrompt n txt atts =
     Inr (map (\<lambda>i. \<lparr>task_text = handleSend_prompts txt ! (i mod length (handleSend_prompts txt)),
                     task_attachments = [atts ! i]\<rparr>) [0..<length atts])"
proof -
  have "trim txt \<noteq> []" using assms(2) prompts_blank by blast
  then show ?thesis using assms
    by (simp add: handleSend_tasks_def mapIndexed_eq_map_upt Let_def)
qed

text \<open>
  C2, as amended. In repeat mode (\<open>normal\<close>) the batch holds exactly \<open>batchCount\<close> tasks,
  each the pair of the prompt text and the whole attachment list, for every count: for a
  count from 1 to 4, and just so for a count outside that range (no task for a count of
  zero or less). The handler does not check the count and reports no validation error.
\<close>

theorem repeat_mode_builds_count_tasks:
  "handleSend_tasks Normal n txt atts =
     Inr (replicate (nat n) \<lparr>task_text = txt, task_attachments = atts\<rparr>)"
  by (simp add: handleSend_tasks_def repeatLoop_eq)

text \<open>
  The claim as worded fails at a count of five: five tasks are built and no error is
  signalled.
\<close>

theorem repeat_mode_count_five_counterexample:
  "handleSend_tasks Normal 5 (lit ''cat'') [img0] =
     Inr (replicate 5 \<lparr>task_text = lit ''cat'', task_attachments = [img0]\<rparr>)"
  by (simp add: handleSend_tasks_def repeatLoop_eq)

text \<open>
  C3, as amended. In the pair-prompts-to-images mode (\<open>image-multi-prompt\<close>) the prompt
  text is cut at every run of three or more dashes, each piece is trimmed and empty pieces
  are dropped; commas and line breaks do not separate prompts. A text without a dash is
  one prompt, and pieces joined by three dashes come back as the trimmed pieces. For the
  prompt "A, B, C" with two images both tasks carry the whole text "A, B, C"; for
  "A---B---C" with two images the tasks are A with the first image and B with the second,
  and C is dropped. In general, take any text \<open>u\<close> that does not end in a dash, a run of
  \<open>k\<close> dashes, and any text \<open>r\<close> that does not begin with a dash: for \<open>k\<close> of three
  or more the run is one separator, however long, so the pieces (and the prompts) are
  those of \<open>u\<close> followed by those of \<open>r\<close>; for \<open>k\<close> below three the run separates
  nothing and stays inside the piece that joins the last piece of \<open>u\<close> to the first of
  \<open>r\<close>.
\<close>

theorem pair_mode_splits_at_dash_runs:
  "(dash \<notin> set txt \<longrightarrow> handleSend_prompts txt = filter (\<lambda>p. 0 < length p) [trim txt])
   \<and> (ps \<noteq> [] \<and> (\<forall>p\<in>set ps. p \<noteq> [] \<and> dash \<notin> set p) \<longrightarrow>
        handleSend_prompts (joinDashes ps) = filter (\<lambda>p. 0 < length p) (map trim ps))
   \<and> handleSend_tasks ImageMultiPrompt n (lit ''A, B, C'') [a0, a1] =
        Inr [\<lparr>task_text = lit ''A, B, C'', task_attachments = [a0]\<rparr>,
             \<lparr>task_text = lit ''A, B, C'', task_attachments = [a1]\<rparr>]
   \<and> handleSend_tasks ImageMultiPrompt n (lit ''A---B---C'') [a0, a1] =
        Inr [\<lparr>task_text = lit ''A'', task_attachments = [a0]\<rparr>,
             \<lparr>task_text = lit ''B'', task_attachments = [a1]\<rparr>]
   \<and> handleSend_prompts t = filter (\<lambda>p. p \<noteq> []) (map trim (splitDashes [] t))
   \<and> ((u = [] \<or> last u \<noteq> dash) \<and> (r = [] \<or> hd r \<noteq> dash) \<and> 3 \<le> k \<longrightarrow>
        splitDashes [] (u @ replicate k dash @ r) = splitDashes [] u @ splitDashes [] r
        \<and> handleSend_prompts (u @ replicate k dash @ r) = handleSend_prompts u @ handleSend_prompts r)
   \<and> ((u = [] \<or> last u \<noteq> dash) \<and> (r = [] \<or> hd r \<noteq> dash) \<and> k < 3 \<longrightarrow>
        splitDashes [] (u @ replicate k dash @ r) =
          butlast (splitDashes [] u)
          @ [last (splitDashes [] u) @ replicate k dash @ hd (splitDashes [] r)]
          @ tl (splitDashes [] r))
   \<and> handleSend_prompts (lit ''a----b'') = [lit ''a'', lit ''b'']
   \<and> handleSend_prompts (lit ''well-known cat--dog---fox'') = [lit ''well-known cat--dog'', lit ''fox'']"
proof (intro conjI impI)
  assume "dash \<notin> set txt"
  then show "handleSend_prompts txt = filter (\<lambda>p. 0 < length p) [trim txt]"
    by (simp add: handleSend_prompts_def splitDashes_no_dash)
next
  assume "ps \<noteq> [] \<and> (\<forall>p\<in>set ps. p \<noteq> [] \<and> dash \<notin> set p)"
  then show "handleSend_prompts (joinDashes ps) = filter (\<lambda>p. 0 < length p) (map trim ps)"
    by (simp add: prompts_joinDashes)
next
  have p: "handleSend_prompts (lit ''A, B, C'') = [lit ''A, B, C'']"
    by (simp add: handleSend_prompts_def lit_def isDash_def dash_def trim_def isWhiteSpace_def)
  show "handleSend_tasks ImageMultiPrompt n (lit ''A, B, C'') [a0, a1] =
        Inr [\<lparr>task_text = lit ''A, B, C'', task_attachments = [a0]\<rparr>,
             \<lparr>task_text = lit ''A, B, C'', task_attachments = [a1]\<rparr>]"
    by (simp add: image_multi_prompt_tasks p)
next
  have p: "handleSend_prompts (lit ''A---B---C'') = [lit ''A'', lit ''B'', lit ''C'']"
    by (simp add: handleSend_prompts_def lit_def isDash_def dash_def trim_def isWhiteSpace_def)
  show "handleSend_tasks ImageMultiPrompt n (lit ''A---B---C'') [a0, a1] =
        Inr [\<lparr>task_text = lit ''A'', task_attachments = [a0]\<rparr>,
             \<lparr>task_text = lit ''B'', task_attachments = [a1]\<rparr>]"
    by (simp add: image_multi_prompt_tasks p)
next
  show "handleSend_prompts t = filter (\<lambda>p. p \<noteq> []) (map trim (splitDashes [] t))"
    by (simp add: handleSend_prompts_def)
next
  assume a: "(u = [] \<or> last u \<noteq> dash) \<and> (r = [] \<or> hd r \<noteq> dash) \<and> 3 \<le> k"
  then show s: "splitDashes [] (u @ replicate k dash @ r) = splitDashes [] u @ splitDashes [] r"
    by (simp add: splitDashes_long_run)
  then show "handleSend_prompts (u @ replicate k dash @ r) = handleSend_prompts u @ handleSend_prompts r"
    by (simp add: handleSend_prompts_def)
next
  assume "(u = [] \<or> last u \<noteq> dash) \<and> (r = [] \<or> hd r \<noteq> dash) \<and> k < 3"
  then show "splitDashes [] (u @ replicate k dash @ r) =
          butlast (splitDashes [] u)
          @ [last (splitDashes [] u) @ replicate k dash @ hd (splitDashes [] r)]
          @ tl (splitDashes [] r)"
    by (simp add: splitDashes_short_run)
next
  show "handleSend_prompts (lit ''a----b'') = [lit ''a'', lit ''b'']"
    by (simp add: handleSend_prompts_def lit_def isDash_def dash_def trim_def isWhiteSpace_def)
next
  show "handleSend_prompts (lit ''well-known cat--dog---fox'') = [lit ''well-known cat--dog'', lit ''fox'']"
    by (simp add: handleSend_prompts_def lit_def isDash_def dash_def trim_def isWhiteSpace_def)
qed

theorem pair_mode_splits_at_dash_runs_witness:
  "dash \<notin> set (lit ''x, y'')
   \<and> handleSend_prompts (lit ''x, y'') = [lit ''x, y'']
   \<and> [lit ''x'', lit ''y''] \<noteq> []
   \<and> lit ''x'' \<noteq> [] \<and> dash \<notin> set (lit ''x'') \<and> lit ''y'' \<noteq> [] \<and> dash \<notin> set (lit ''y'')
   \<and> handleSend_prompts (joinDashes [lit ''x'', lit ''y'']) = [lit ''x'', lit ''y'']
   \<and> last (lit ''x-y'') \<noteq> dash \<and> hd (lit ''z'') \<noteq> dash
   \<and> splitDashes [] (lit ''x-y'' @ replicate 5 dash @ lit ''z'') = [lit ''x-y'', lit ''z'']
   \<and> handleSend_prompts (lit ''x-y'' @ replicate 5 dash @ lit ''z'') = [lit ''x-y'', lit ''z'']
   \<and> splitDashes [] (lit ''x-y'' @ replicate 2 dash @ lit ''z'') = [lit ''x-y--z'']"
proof -
  note t = pair_mode_splits_at_dash_runs [of "lit ''x, y''" "[lit ''x'', lit ''y'']" 0 img0 img1 "[]" "lit ''x-y''" "lit ''z''"]
  have b: "(lit ''x-y'' = [] \<or> last (lit ''x-y'') \<noteq> dash) \<and> (lit ''z'' = [] \<or> hd (lit ''z'') \<noteq> dash)"
    by (simp add: lit_def dash_def)
  have su: "splitDashes [] (lit ''x-y'') = [lit ''x-y'']" and sr: "splitDashes [] (lit ''z'') = [lit ''z'']"
    by (simp_all add: lit_def isDash_def dash_def)
  have pu: "handleSend_prompts (lit ''x-y'') = [lit ''x-y'']" and pr: "handleSend_prompts (lit ''z'') = [lit ''z'']"
    by (simp_all add: handleSend_prompts_def lit_def isDash_def dash_def trim_def isWhiteSpace_def)
  from t [of 5] b have l: "splitDashes [] (lit ''x-y'' @ replicate 5 dash @ lit ''z'') = [lit ''x-y'', lit ''z'']"
    and lp: "handleSend_prompts (lit ''x-y'' @ replicate 5 dash @ lit ''z'') = [lit ''x-y'', lit ''z'']"
    by (simp_all add: su sr pu pr)
  from t [of 2] b have "splitDashes [] (lit ''x-y'' @ replicate 2 dash @ lit ''z'') =
      butlast (splitDashes [] (lit ''x-y''))
          @ [last (splitDashes [] (lit ''x-y'')) @ replicate 2 dash @ hd (splitDashes [] (lit ''z''))]
          @ tl (splitDashes [] (lit ''z''))"
    by simp
  then have k: "splitDashes [] (lit ''x-y'' @ replicate 2 dash @ lit ''z'') = [lit ''x-y--z'']"
    by (simp add: su sr) (simp add: lit_def dash_def numeral_2_eq_2)
  from t [of 5] have o: "dash \<notin> set (lit ''x, y'') \<and> handleSend_prompts (lit ''x, y'') = [lit ''x, y'']
     \<and> handleSend_prompts (joinDashes [lit ''x'', lit ''y'']) = [lit ''x'', lit ''y'']"
    by (simp add: lit_def dash_def trim_def isWhiteSpace_def)
  from o b l lp k show ?thesis
    by (simp add: lit_def dash_def)
qed

text \<open>
  The claim as worded fails for "A, B, C" with two images: the tasks built are not A with
  the first image and B with the second.
\<close>

theorem pair_mode_comma_counterexample:
  "handleSend_tasks ImageMultiPrompt 2 (lit ''A, B, C'') [img0, img1] \<noteq>
     Inr [\<lparr>task_text = lit ''A'', task_attachments = [img0]\<rparr>,
          \<lparr>task_text = lit ''B'', task_attachments = [img1]\<rparr>]"
proof -
  have p: "handleSend_prompts (lit ''A, B, C'') = [lit ''A, B, C'']"
    by (simp add: handleSend_prompts_def lit_def isDash_def dash_def trim_def isWhiteSpace_def)
  have "handleSend_tasks ImageMultiPrompt 2 (lit ''A, B, C'') [img0, img1] =
     Inr [\<lparr>task_text = lit ''A, B, C'', task_attachments = [img0]\<rparr>,
          \<lparr>task_text = lit ''A, B, C'', task_attachments = [img1]\<rparr>]"
    by (simp add: image_multi_prompt_tasks p)
  moreover have "lit ''A, B, C'' \<noteq> lit ''A''" by (simp add: lit_def)
  ultimately show ?thesis by simp
qed

text \<open>
  C4. With a non-empty image list of size N and M sub-prompts, M at least one (M smaller
  than N included), the pair-prompts-to-images mode builds exactly N tasks, and task i
  carries sub-prompt i mod M and the single image i. The first part speaks of the
  sub-prompts that the handler reads off any text, the second of any list of sub-prompts
  joined by the three-dash separator.
\<close>

theorem image_multi_prompt_cycles_prompts:
  "(atts \<noteq> [] \<and> handleSend_prompts txt \<noteq> [] \<longrightarrow>
      handleSend_tasks ImageMultiPrompt n txt atts =
        Inr (map (\<lambda>i. \<lparr>task_text = handleSend_prompts txt ! (i mod length (handleSend_prompts txt)),
                        task_attachments = [atts ! i]\<rparr>) [0..<length atts]))
   \<and> (atts \<noteq> [] \<and> ps \<noteq> [] \<and> (\<forall>p\<in>set ps. p \<noteq> [] \<and> dash \<notin> set p \<and> trim p = p) \<longrightarrow>
      handleSend_tasks ImageMultiPrompt n (joinDashes ps) atts =
        Inr (map (\<lambda>i. \<lparr>task_text = ps ! (i mod length ps), task_attachments = [atts ! i]\<rparr>)
               [0..<length atts]))"
proof (intro conjI impI)
  assume "atts \<noteq> [] \<and> handleSend_prompts txt \<noteq> []"
  then show "handleSend_tasks ImageMultiPrompt n txt atts =
        Inr (map (\<lambda>i. \<lparr>task_text = handleSend_prompts txt ! (i mod length (handleSend_prompts txt)),
                        task_attachments = [atts ! i]\<rparr>) [0..<length atts])"
    by (simp add: image_multi_prompt_tasks)
next
  assume a: "atts \<noteq> [] \<and> ps \<noteq> [] \<and> (\<forall>p\<in>set ps. p \<noteq> [] \<and> dash \<notin> set p \<and> trim p = p)"
  then have "map trim ps = ps" by (simp add: map_idI)
  moreover have "filter (\<lambda>p. 0 < length p) ps = ps" using a by simp
  ultimately have "handleSend_prompts (joinDashes ps) = ps"
    using a by (simp add: prompts_joinDashes)
  then show "handleSend_tasks ImageMultiPrompt n (joinDashes ps) atts =
        Inr (map (\<lambda>i. \<lparr>task_text = ps ! (i mod length ps), task_attachments = [atts ! i]\<rparr>)
               [0..<length atts])"
    using a by (simp add: image_multi_prompt_tasks)
qed

theorem image_multi_prompt_cycles_prompts_witness:
  "[img0, img1, img2] \<noteq> [] \<and> handleSend_prompts (lit ''a --- b'') = [lit ''a'', lit ''b'']
   \<and> lit ''a'' \<noteq> [] \<and> dash \<notin> set (lit ''a'') \<and> trim (lit ''a'') = lit ''a''
   \<and> lit ''b'' \<noteq> [] \<and> dash \<notin> set (lit ''b'') \<and> trim (lit ''b'') = lit ''b''
   \<and> handleSend_tasks ImageMultiPrompt 0 (lit ''a --- b'') [img0, img1, img2] =
       Inr [\<lparr>task_text = lit ''a'', task_attachments = [img0]\<rparr>,
            \<lparr>task_text = lit ''b'', task_attachments = [img1]\<rparr>,
            \<lparr>task_text = lit ''a'', task_attachments = [img2]\<rparr>]
   \<and> handleSend_tasks ImageMultiPrompt 0 (joinDashes [lit ''a'', lit ''b'']) [img0, img1, img2] =
       Inr [\<lparr>task_text = lit ''a'', task_attachments = [img0]\<rparr>,
            \<lparr>task_text = lit ''b'', task_attachments = [img1]\<rparr>,
            \<lparr>task_text = lit ''a'', task_attachments = [img2]\<rparr>]"
proof -
  have p: "handleSend_prompts (lit ''a --- b'') = [lit ''a'', lit ''b'']"
    by (simp add: handleSend_prompts_def lit_def isDash_def dash_def trim_def isWhiteSpace_def)
  have c: "\<forall>p\<in>set [lit ''a'', lit ''b'']. p \<noteq> [] \<and> dash \<notin> set p \<and> trim p = p"
    by (simp add: lit_def dash_def trim_def isWhiteSpace_def)
  show ?thesis
    using image_multi_prompt_cycles_prompts [of "[img0, img1, img2]" "lit ''a --- b''" 0 "[lit ''a'', lit ''b'']"] p c
    by (simp add:)
qed

text \<open>
  C5. In the fan-out mode (\<open>multi-image\<close>) a non-empty image list of size N yields exactly
  N tasks; task i holds the shared prompt text and the single image i, so the one-image
  lists, put end to end, are the input list: no image is repeated and none is left out. An
  empty image list yields the error notification instead of tasks, and \<open>handleSend\<close>
  then returns with that notification as its only effect.
\<close>

theorem multi_image_one_task_per_image:
  "(atts \<noteq> [] \<longrightarrow>
      (\<exists>tasks. handleSend_tasks MultiImage n txt atts = Inr tasks
         \<and> length tasks = length atts
         \<and> (\<forall>i<length atts. tasks ! i = \<lparr>task_text = txt, task_attachments = [atts ! i]\<rparr>)
         \<and> concat (map task_attachments tasks) = atts))
   \<and> (atts = [] \<longrightarrow> handleSend_tasks MultiImage n txt atts = Inl (MultiImageNeedsImage, Error))
   \<and> (apiKey st \<noteq> [] \<and> batchMode st = MultiImage \<longrightarrow>
        handleSend env txt [] st =
          (None, st\<lparr>toasts := toasts st @ [(MultiImageNeedsImage, Error)]\<rparr>))"
proof (intro conjI impI)
  assume ne: "atts \<noteq> []"
  let ?tasks = "map (\<lambda>att. \<lparr>task_text = txt, task_attachments = [att]\<rparr>) atts"
  have "handleSend_tasks MultiImage n txt atts = Inr ?tasks"
    using ne by (simp add: handleSend_tasks_def)
  moreover have "concat (map task_attachments ?tasks) = atts"
    by (induction atts) simp_all
  ultimately show "\<exists>tasks. handleSend_tasks MultiImage n txt atts = Inr tasks
         \<and> length tasks = length atts
         \<and> (\<forall>i<length atts. tasks ! i = \<lparr>task_text = txt, task_attachments = [atts ! i]\<rparr>)
         \<and> concat (map task_attachments tasks) = atts"
    by simp
next
  assume "atts = []"
  then show "handleSend_tasks MultiImage n txt atts = Inl (MultiImageNeedsImage, Error)"
    by (simp add: handleSend_tasks_def)
next
  assume "apiKey st \<noteq> [] \<and> batchMode st = MultiImage"
  then show "handleSend env txt [] st =
          (None, st\<lparr>toasts := toasts st @ [(MultiImageNeedsImage, Error)]\<rparr>)"
    by (simp add: handleSend_def handleSend_tasks_def)
qed

theorem multi_image_one_task_per_image_witness:
  "[img0, img1] \<noteq> []
   \<and> (\<exists>tasks. handleSend_tasks MultiImage 0 (lit ''cat'') [img0, img1] = Inr tasks
         \<and> length tasks = 2
         \<and> tasks ! 0 = \<lparr>task_text = lit ''cat'', task_attachments = [img0]\<rparr>
         \<and> tasks ! 1 = \<lparr>task_text = lit ''cat'', task_attachments = [img1]\<rparr>
         \<and> concat (map task_attachments tasks) = [img0, img1])
   \<and> handleSend_tasks MultiImage 0 (lit ''cat'') [] = Inl (MultiImageNeedsImage, Error)
   \<and> apiKey (idleApp\<lparr>batchMode := MultiImage\<rparr>) \<noteq> []
   \<and> batchMode (idleApp\<lparr>batchMode := MultiImage\<rparr>) = MultiImage
   \<and> requests (snd (handleSend (\<lambda>i. quietReply) (lit ''cat'') [] (idleApp\<lparr>batchMode := MultiImage\<rparr>))) = []
   \<and> toasts (snd (handleSend (\<lambda>i. quietReply) (lit ''cat'') [] (idleApp\<lparr>batchMode := MultiImage\<rparr>)))
       = [(MultiImageNeedsImage, Error)]"
proof -
  have k: "apiKey (idleApp\<lparr>batchMode := MultiImage\<rparr>) \<noteq> []"
    by (simp add: idleApp_def lit_def)
  note a = multi_image_one_task_per_image [of "[img0, img1]" 0 "lit ''cat''" "idleApp\<lparr>batchMode := MultiImage\<rparr>" "\<lambda>i. quietReply"]
  note b = multi_image_one_task_per_image [of "[]" 0 "lit ''cat''" "idleApp\<lparr>batchMode := MultiImage\<rparr>" "\<lambda>i. quietReply"]
  from a have 1: "\<exists>tasks. handleSend_tasks MultiImage 0 (lit ''cat'') [img0, img1] = Inr tasks
         \<and> length tasks = 2
         \<and> tasks ! 0 = \<lparr>task_text = lit ''cat'', task_attachments = [img0]\<rparr>
         \<and> tasks ! 1 = \<lparr>task_text = lit ''cat'', task_attachments = [img1]\<rparr>
         \<and> concat (map task_attachments tasks) = [img0, img1]"
    by auto
  from b have 2: "handleSend_tasks MultiImage 0 (lit ''cat'') [] = Inl (MultiImageNeedsImage, Error)"
    by simp
  from a k have 3: "handleSend (\<lambda>i. quietReply) (lit ''cat'') [] (idleApp\<lparr>batchMode := MultiImage\<rparr>) =
     (None, (idleApp\<lparr>batchMode := MultiImage\<rparr>)\<lparr>toasts := toasts (idleApp\<lparr>batchMode := MultiImage\<rparr>) @ [(MultiImageNeedsImage, Error)]\<rparr>)"
    by simp
  show ?thesis using 1 2 k
    by (simp add: 3) (simp add: idleApp_def)
qed

section \<open>The pipeline dialog\<close>

lemma trim_Nil: "trim [] = []"
  by (simp add: trim_def)

lemma length_filterIndexed_le: "length (filterIndexed p xs) \<le> length xs"
proof -
  have "length (filterIndexed p xs) \<le> length (zip xs [0..<length xs])"
    unfolding filterIndexed_def by (simp only: length_map length_filter_le)
  then show ?thesis by simp
qed

lemma applyOp_attachments_bound:
  "length (attachments st) \<le> 14 \<Longrightarrow> length (attachments (applyOp op st)) \<le> 14"
proof (cases op)
  case (RemoveAttachment i)
  assume "length (attachments st) \<le> 14"
  moreover have "length (filterIndexed (\<lambda>_ j. j \<noteq> i) (attachments st)) \<le> length (attachments st)"
    by (rule length_filterIndexed_le)
  ultimately show ?thesis using RemoveAttachment by (simp add: removeAttachment_def)
qed (simp_all add: handleAddStep_def handleRemoveStep_def handleStepChange_def
       handleMoveStep_def handleApplyTemplate_def processFiles_def handleReset_def
       Let_def split: step_field.splits)

lemma applyOps_attachments_bound:
  "length (attachments st) \<le> 14 \<Longrightarrow> length (attachments (applyOps ops st)) \<le> 14"
  by (induction ops arbitrary: st) (simp_all add: applyOp_attachments_bound)

lemma handleExecute_Executed:
  "handleExecute st = Executed m ss as \<longleftrightarrow>
     m = mode st \<and> ss = filter (\<lambda>s. trim (prompt s) \<noteq> []) (steps st) \<and> as = attachments st
     \<and> ss \<noteq> [] \<and> as \<noteq> []"
  by (auto simp: handleExecute_def Let_def)

lemmas modal_eval =
  applyOps.simps applyOp.simps handleStepChange_def handleAddStep_def processFiles_def
  removeAttachment_def initialModal_def handleExecute_def newAttachments.simps
  startsWith_def sampleFile_def filterIndexed_def Let_def trim_def isWhiteSpace_def lit_def
  comma_def splitComma.simps

lemma promptOnly_state:
  "applyOps promptOnly (initialModal (lit ''1'')) =
     \<lparr>mode = Serial,
      steps = [\<lparr>step_id = lit ''1'', prompt = lit ''blur'', step_modelName = None, status = Pending\<rparr>],
      attachments = []\<rparr>"
  by (simp add: promptOnly_def modal_eval)

lemma newAttachments_sampleFile: "newAttachments (sampleFile # fs) = img0 # newAttachments fs"
  by (simp add: modal_eval img0_def)

lemma promptAndImage_state:
  "applyOps promptAndImage (initialModal (lit ''1'')) =
     \<lparr>mode = Serial,
      steps = [\<lparr>step_id = lit ''1'', prompt = lit ''blur'', step_modelName = None, status = Pending\<rparr>],
      attachments = [img0]\<rparr>"
  by (simp add: promptAndImage_def newAttachments_sampleFile handleStepChange_def processFiles_def
        initialModal_def del: newAttachments.simps(2))

lemma blankMiddleStep_state:
  "applyOps blankMiddleStep (initialModal (lit ''1'')) =
     \<lparr>mode = Serial,
      steps = [\<lparr>step_id = lit ''1'', prompt = lit ''blur'', step_modelName = None, status = Pending\<rparr>,
               \<lparr>step_id = lit ''2'', prompt = lit ''  '', step_modelName = None, status = Pending\<rparr>,
               \<lparr>step_id = lit ''3'', prompt = lit ''sharpen'', step_modelName = None, status = Pending\<rparr>],
      attachments = [img0]\<rparr>"
  by (simp add: blankMiddleStep_def newAttachments_sampleFile handleStepChange_def handleAddStep_def
        processFiles_def initialModal_def del: newAttachments.simps(2))

lemma filterIndexed_beyond:
  assumes "length xs \<le> n"
  shows "filterIndexed (\<lambda>_ i. i \<noteq> n) xs = xs"
proof -
  have "\<forall>p\<in>set (zip xs [0..<length xs]). (\<lambda>(x, i). i \<noteq> n) p"
    using assms by (auto dest: set_zip_rightD)
  then have "filter (\<lambda>(x, i). i \<noteq> n) (zip xs [0..<length xs]) = zip xs [0..<length xs]"
    by (rule filter_True)
  then show ?thesis by (simp add: filterIndexed_def)
qed

lemma newAttachments_replicate: "newAttachments (replicate k sampleFile) = replicate k img0"
  by (induction k) (simp_all add: newAttachments_sampleFile del: newAttachments.simps(2))

lemma fifteenFiles_state:
  "applyOps fifteenFiles (initialModal (lit ''1'')) =
     \<lparr>mode = Serial,
      steps = [\<lparr>step_id = lit ''1'', prompt = lit ''blur'', step_modelName = None, status = Pending\<rparr>],
      attachments = replicate 14 img0\<rparr>"
proof -
  have f: "filterIndexed (\<lambda>_ i. i \<noteq> 20) (replicate 14 img0) = replicate 14 img0"
    by (rule filterIndexed_beyond) simp
  show ?thesis
    by (simp add: fifteenFiles_def newAttachments_replicate handleStepChange_def processFiles_def
          removeAttachment_def initialModal_def f)
qed

lemma trim_blur:
  "trim (lit ''blur'') = lit ''blur''" "trim (lit ''  '') = []"
  "trim (lit ''sharpen'') = lit ''sharpen''" "lit ''blur'' \<noteq> []" "lit ''sharpen'' \<noteq> []"
  by (simp_all add: trim_def lit_def isWhiteSpace_def)

text \<open>
  C7. The execute handler needs a step whose prompt is not blank and an initial image.
  With no such step (in particular when every prompt is empty) it shows the alert that asks
  for a step; with such a step but no image it shows the alert that asks for an image; in
  both cases it returns before \<open>onExecute\<close> is called. \<open>onExecute\<close> is called exactly
  when both conditions hold.
\<close>

theorem pipeline_execute_requires_step_and_image:
  "(\<not> (\<exists>s\<in>set (steps st). trim (prompt s) \<noteq> []) \<longrightarrow> handleExecute st = Alerted AddAtLeastOneStep)
   \<and> ((\<forall>s\<in>set (steps st). prompt s = []) \<longrightarrow> handleExecute st = Alerted AddAtLeastOneStep)
   \<and> ((\<exists>s\<in>set (steps st). trim (prompt s) \<noteq> []) \<and> attachments st = [] \<longrightarrow>
         handleExecute st = Alerted UploadAtLeastOneImage)
   \<and> ((\<exists>m ss as. handleExecute st = Executed m ss as) \<longleftrightarrow>
         (\<exists>s\<in>set (steps st). trim (prompt s) \<noteq> []) \<and> attachments st \<noteq> [])"
proof (intro conjI impI)
  assume "\<not> (\<exists>s\<in>set (steps st). trim (prompt s) \<noteq> [])"
  then show "handleExecute st = Alerted AddAtLeastOneStep"
    by (simp add: handleExecute_def Let_def filter_empty_conv)
next
  assume "\<forall>s\<in>set (steps st). prompt s = []"
  then show "handleExecute st = Alerted AddAtLeastOneStep"
    by (simp add: handleExecute_def Let_def filter_empty_conv trim_Nil)
next
  assume "(\<exists>s\<in>set (steps st). trim (prompt s) \<noteq> []) \<and> attachments st = []"
  then show "handleExecute st = Alerted UploadAtLeastOneImage"
    by (simp add: handleExecute_def Let_def filter_empty_conv)
next
  show "(\<exists>m ss as. handleExecute st = Executed m ss as) \<longleftrightarrow>
         (\<exists>s\<in>set (steps st). trim (prompt s) \<noteq> []) \<and> attachments st \<noteq> []"
    by (auto simp: handleExecute_Executed filter_empty_conv)
qed

theorem pipeline_execute_requires_step_and_image_witness:
  "handleExecute (initialModal (lit ''1'')) = Alerted AddAtLeastOneStep
   \<and> handleExecute (applyOps promptOnly (initialModal (lit ''1''))) = Alerted UploadAtLeastOneImage
   \<and> (\<exists>m ss as. handleExecute (applyOps promptAndImage (initialModal (lit ''1''))) = Executed m ss as)"
  using pipeline_execute_requires_step_and_image [of "initialModal (lit ''1'')"]
    pipeline_execute_requires_step_and_image [of "applyOps promptOnly (initialModal (lit ''1''))"]
    pipeline_execute_requires_step_and_image [of "applyOps promptAndImage (initialModal (lit ''1''))"]
  by (simp add: promptOnly_state promptAndImage_state trim_blur) (simp add: initialModal_def lit_def)

text \<open>
  C9. After every sequence of dialog operations from the mounted state (uploads and
  removals among them) the attachment list has at most 14 entries: an upload keeps the
  first 14 of the old list followed by the new files and drops the rest. The image list
  that \<open>onExecute\<close> receives is that attachment list, so it has at most 14 images.
\<close>

theorem pipeline_attachments_at_most_14:
  "length (attachments (applyOps ops (initialModal now))) \<le> 14
   \<and> attachments (processFiles files st) = take 14 (attachments st @ newAttachments files)
   \<and> (handleExecute (applyOps ops (initialModal now)) = Executed m ss as \<longrightarrow>
        as = attachments (applyOps ops (initialModal now)) \<and> length as \<le> 14)"
proof -
  have b: "length (attachments (applyOps ops (initialModal now))) \<le> 14"
    by (rule applyOps_attachments_bound) (simp add: initialModal_def)
  then show ?thesis
    by (auto simp: handleExecute_Executed processFiles_def)
qed

theorem pipeline_attachments_at_most_14_witness:
  "handleExecute (applyOps fifteenFiles (initialModal (lit ''1''))) =
     Executed Serial
       [\<lparr>step_id = lit ''1'', prompt = lit ''blur'', step_modelName = None, status = Pending\<rparr>]
       (replicate 14 img0)
   \<and> length (replicate 14 img0) \<le> 14"
proof -
  have e: "handleExecute (applyOps fifteenFiles (initialModal (lit ''1''))) =
     Executed Serial
       [\<lparr>step_id = lit ''1'', prompt = lit ''blur'', step_modelName = None, status = Pending\<rparr>]
       (replicate 14 img0)"
    by (simp add: fifteenFiles_state handleExecute_def trim_blur)
  from pipeline_attachments_at_most_14 [of fifteenFiles "lit ''1''" "[]" "initialModal (lit ''1'')" Serial
       "[\<lparr>step_id = lit ''1'', prompt = lit ''blur'', step_modelName = None, status = Pending\<rparr>]"
       "replicate 14 img0"] e
  have "length (replicate 14 img0) \<le> 14" by blast
  with e show ?thesis by blast
qed

text \<open>
  C10. When \<open>onExecute\<close> is called, its step list is the configured step list filtered to
  the steps whose trimmed prompt is not empty: a subsequence in the original order that
  holds a step exactly when its prompt is not made of white space only. Blank steps are
  dropped without an error as soon as one step with a prompt remains and an image is
  attached.
\<close>

theorem pipeline_execute_passes_nonblank_steps:
  "(handleExecute st = Executed m ss as \<longrightarrow>
      m = mode st \<and> as = attachments st
      \<and> ss = filter (\<lambda>s. trim (prompt s) \<noteq> []) (steps st)
      \<and> subseq ss (steps st)
      \<and> (\<forall>s\<in>set (steps st). s \<in> set ss \<longleftrightarrow> \<not> (\<forall>c\<in>set (prompt s). isWhiteSpace c)))
   \<and> (filter (\<lambda>s. trim (prompt s) \<noteq> []) (steps st) \<noteq> [] \<and> attachments st \<noteq> [] \<longrightarrow>
        handleExecute st =
          Executed (mode st) (filter (\<lambda>s. trim (prompt s) \<noteq> []) (steps st)) (attachments st))"
proof (intro conjI impI)
  assume e: "handleExecute st = Executed m ss as"
  then have ss: "ss = filter (\<lambda>s. trim (prompt s) \<noteq> []) (steps st)"
    by (simp add: handleExecute_Executed)
  from e show "m = mode st" and "as = attachments st" by (simp_all add: handleExecute_Executed)
  from ss show "ss = filter (\<lambda>s. trim (prompt s) \<noteq> []) (steps st)" .
  from ss show "subseq ss (steps st)" by simp
  from ss show "\<forall>s\<in>set (steps st). s \<in> set ss \<longleftrightarrow> \<not> (\<forall>c\<in>set (prompt s). isWhiteSpace c)"
    by (simp add: trim_eq_Nil_iff)
next
  assume "filter (\<lambda>s. trim (prompt s) \<noteq> []) (steps st) \<noteq> [] \<and> attachments st \<noteq> []"
  then show "handleExecute st =
          Executed (mode st) (filter (\<lambda>s. trim (prompt s) \<noteq> []) (steps st)) (attachments st)"
    by (simp add: handleExecute_Executed)
qed

theorem pipeline_execute_passes_nonblank_steps_witness:
  "handleExecute (applyOps blankMiddleStep (initialModal (lit ''1''))) =
     Executed Serial
       [\<lparr>step_id = lit ''1'', prompt = lit ''blur'', step_modelName = None, status = Pending\<rparr>,
        \<lparr>step_id = lit ''3'', prompt = lit ''sharpen'', step_modelName = None, status = Pending\<rparr>]
       [img0]"
proof -
  let ?st = "applyOps blankMiddleStep (initialModal (lit ''1''))"
  have "filter (\<lambda>s. trim (prompt s) \<noteq> []) (steps ?st) \<noteq> [] \<and> attachments ?st \<noteq> []"
    by (simp add: blankMiddleStep_state trim_blur)
  with pipeline_execute_passes_nonblank_steps [of ?st, THEN conjunct2]
  have "handleExecute ?st =
          Executed (mode ?st) (filter (\<lambda>s. trim (prompt s) \<noteq> []) (steps ?st)) (attachments ?st)"
    by (rule mp)
  then show ?thesis
    by (simp add: blankMiddleStep_state trim_blur)
qed

section \<open>One generation\<close>

text \<open>
  What each part of \<open>executeSingleGeneration\<close> leaves untouched and what it appends.
\<close>

lemma updateLastMessage_frame [simp]:
  "apiKey (updateLastMessage ps e d st) = apiKey st"
  "settings (updateLastMessage ps e d st) = settings st"
  "batchMode (updateLastMessage ps e d st) = batchMode st"
  "batchCount (updateLastMessage ps e d st) = batchCount st"
  "batchProgress (updateLastMessage ps e d st) = batchProgress st"
  "abortController (updateLastMessage ps e d st) = abortController st"
  "toasts (updateLastMessage ps e d st) = toasts st"
  "console (updateLastMessage ps e d st) = console st"
  "requests (updateLastMessage ps e d st) = requests st"
  "delays (updateLastMessage ps e d st) = delays st"
  "invocations (updateLastMessage ps e d st) = invocations st"
  "updates (updateLastMessage ps e d st) = updates st @ [(ps, e, d)]"
  "messages (updateLastMessage ps e d st) = [] \<longleftrightarrow> messages st = []"
  by (simp_all add: updateLastMessage_def split: list.splits)

lemma collectImages_frame [simp]:
  "apiKey (collectImages txt st) = apiKey st"
  "settings (collectImages txt st) = settings st"
  "batchMode (collectImages txt st) = batchMode st"
  "batchCount (collectImages txt st) = batchCount st"
  "batchProgress (collectImages txt st) = batchProgress st"
  "abortController (collectImages txt st) = abortController st"
  "toasts (collectImages txt st) = toasts st"
  "console (collectImages txt st) = console st"
  "requests (collectImages txt st) = requests st"
  "delays (collectImages txt st) = delays st"
  "invocations (collectImages txt st) = invocations st"
  "updates (collectImages txt st) = updates st"
  "messages (collectImages txt st) = messages st"
  by (simp_all add: collectImages_def Let_def split: list.splits)

lemma streamLoop_frame:
  "apiKey (snd (streamLoop start cs acc st)) = apiKey st
   \<and> settings (snd (streamLoop start cs acc st)) = settings st
   \<and> batchMode (snd (streamLoop start cs acc st)) = batchMode st
   \<and> batchCount (snd (streamLoop start cs acc st)) = batchCount st
   \<and> batchProgress (snd (streamLoop start cs acc st)) = batchProgress st
   \<and> abortController (snd (streamLoop start cs acc st)) = abortController st
   \<and> toasts (snd (streamLoop start cs acc st)) = toasts st
   \<and> console (snd (streamLoop start cs acc st)) = console st
   \<and> requests (snd (streamLoop start cs acc st)) = requests st
   \<and> delays (snd (streamLoop start cs acc st)) = delays st
   \<and> invocations (snd (streamLoop start cs acc st)) = invocations st
   \<and> (messages (snd (streamLoop start cs acc st)) = [] \<longleftrightarrow> messages st = [])"
  by (induction cs arbitrary: acc st) (simp_all add: Let_def)

lemma generationTry_frame:
  assumes "generationTry r txt st = Inr s \<or> generationTry r txt st = Inl (e, s)"
  shows "apiKey s = apiKey st \<and> settings s = settings st \<and> batchMode s = batchMode st
    \<and> batchCount s = batchCount st \<and> batchProgress s = batchProgress st
    \<and> abortController s = abortController st \<and> toasts s = toasts st
    \<and> console s = console st \<and> requests s = requests st \<and> delays s = delays st
    \<and> invocations s = invocations st \<and> (messages s = [] \<longleftrightarrow> messages st = [])"
proof (cases "streamResponse (settings st)")
  case False
  with assms show ?thesis
    by (auto simp: generationTry_def Let_def split: option.splits)
next
  case True
  obtain acc s1 where l: "streamLoop (startTime r) (chunks r) (False, 0) st = (acc, s1)"
    by (cases "streamLoop (startTime r) (chunks r) (False, 0) st")
  from streamLoop_frame [of "startTime r" "chunks r" "(False, 0)" st] l
  have f1: "apiKey s1 = apiKey st \<and> settings s1 = settings st \<and> batchMode s1 = batchMode st
    \<and> batchCount s1 = batchCount st \<and> batchProgress s1 = batchProgress st
    \<and> abortController s1 = abortController st \<and> toasts s1 = toasts st
    \<and> console s1 = console st \<and> requests s1 = requests st \<and> delays s1 = delays st
    \<and> invocations s1 = invocations st \<and> (messages s1 = [] \<longleftrightarrow> messages st = [])"
    by simp
  from assms True l have "s = s1 \<or> s = collectImages txt s1
      \<or> s = collectImages txt (updateLastMessage (msg_parts (last (messages s1))) False
                 (Some (seconds (endTime r - startTime r))) s1)"
    by (auto simp: generationTry_def split: option.splits if_splits list.splits prod.splits)
  with f1 show ?thesis by auto
qed

lemma generationStart_frame [simp]:
  "apiKey (generationStart r txt atts st) = apiKey st"
  "settings (generationStart r txt atts st) = settings st"
  "batchMode (generationStart r txt atts st) = batchMode st"
  "batchCount (generationStart r txt atts st) = batchCount st"
  "batchProgress (generationStart r txt atts st) = batchProgress st"
  "abortController (generationStart r txt atts st) = Some (stopPressed r)"
  "toasts (generationStart r txt atts st) = toasts st"
  "console (generationStart r txt atts st) = console st"
  "delays (generationStart r txt atts st) = delays st"
  "invocations (generationStart r txt atts st) = invocations st"
  "updates (generationStart r txt atts st) = updates st"
  "messages (generationStart r txt atts st) \<noteq> []"
  "requests (generationStart r txt atts st) = requests st @
     [\<lparr>req_streaming = streamResponse (settings st), req_history = messages st,
       req_text = txt, req_images = map (\<lambda>a. (base64Data a, mimeType a)) atts,
       req_aborted = stopPressed r\<rparr>]"
  by (simp_all add: generationStart_def Let_def addMessage_def handleStop_def)

lemma generationFinally_frame [simp]:
  "apiKey (generationFinally st) = apiKey st"
  "settings (generationFinally st) = settings st"
  "batchMode (generationFinally st) = batchMode st"
  "batchCount (generationFinally st) = batchCount st"
  "batchProgress (generationFinally st) = batchProgress st"
  "abortController (generationFinally st) = None"
  "isLoading (generationFinally st) = False"
  "toasts (generationFinally st) = toasts st"
  "console (generationFinally st) = console st"
  "delays (generationFinally st) = delays st"
  "invocations (generationFinally st) = invocations st"
  "updates (generationFinally st) = updates st"
  "requests (generationFinally st) = requests st"
  by (simp_all add: generationFinally_def)

lemma generationCatch_frame [simp]:
  "apiKey (generationCatch e st) = apiKey st"
  "settings (generationCatch e st) = settings st"
  "batchMode (generationCatch e st) = batchMode st"
  "batchCount (generationCatch e st) = batchCount st"
  "batchProgress (generationCatch e st) = batchProgress st"
  "toasts (generationCatch e st) = toasts st"
  "delays (generationCatch e st) = delays st"
  "invocations (generationCatch e st) = invocations st"
  "requests (generationCatch e st) = requests st"
  "console (generationCatch e st) = console st @
     [if err_name e = lit ''AbortError'' \<or> abortController st = Some True then UserStopped
      else GenerationFailed e]"
  by (simp_all add: generationCatch_def Let_def)

lemma generationTry_outcome:
  assumes "messages st \<noteq> []"
  shows "(case failure r of
            Some e \<Rightarrow> \<exists>s. generationTry r txt st = Inl (e, s)
          | None \<Rightarrow> \<exists>s. generationTry r txt st = Inr s)"
proof (cases "streamResponse (settings st)")
  case False
  then show ?thesis
    by (simp add: generationTry_def Let_def split: option.splits)
next
  case True
  obtain acc s1 where l: "streamLoop (startTime r) (chunks r) (False, 0) st = (acc, s1)"
    by (cases "streamLoop (startTime r) (chunks r) (False, 0) st")
  from streamLoop_frame [of "startTime r" "chunks r" "(False, 0)" st] l assms
  have "messages s1 \<noteq> []" by simp
  with True l show ?thesis
    by (cases acc) (simp add: generationTry_def split: option.splits list.splits)
qed

lemma executeSingleGeneration_throws:
  "historyError r = Some e \<Longrightarrow>
     executeSingleGeneration r txt atts st =
       (Some e, st\<lparr>invocations := invocations st @ [\<lparr>task_text = txt, task_attachments = atts\<rparr>]\<rparr>)"
  by (simp add: executeSingleGeneration_def)

lemma executeSingleGeneration_runs:
  assumes "historyError r = None"
  shows "fst (executeSingleGeneration r txt atts st) = None"
    and "apiKey (snd (executeSingleGeneration r txt atts st)) = apiKey st"
    and "settings (snd (executeSingleGeneration r txt atts st)) = settings st"
    and "batchMode (snd (executeSingleGeneration r txt atts st)) = batchMode st"
    and "batchCount (snd (executeSingleGeneration r txt atts st)) = batchCount st"
    and "batchProgress (snd (executeSingleGeneration r txt atts st)) = batchProgress st"
    and "toasts (snd (executeSingleGeneration r txt atts st)) = toasts st"
    and "delays (snd (executeSingleGeneration r txt atts st)) = delays st"
    and "invocations (snd (executeSingleGeneration r txt atts st)) =
           invocations st @ [\<lparr>task_text = txt, task_attachments = atts\<rparr>]"
    and "requests (snd (executeSingleGeneration r txt atts st)) = requests st @
           [\<lparr>req_streaming = streamResponse (settings st), req_history = messages st,
             req_text = txt, req_images = map (\<lambda>a. (base64Data a, mimeType a)) atts,
             req_aborted = stopPressed r\<rparr>]"
    and "console (snd (executeSingleGeneration r txt atts st)) = console st @ expectedConsole r j"
    and "abortController (snd (executeSingleGeneration r txt atts st)) = None"
proof -
  define st0 where "st0 = st\<lparr>invocations := invocations st @ [\<lparr>task_text = txt, task_attachments = atts\<rparr>]\<rparr>"
  define st6 where "st6 = generationStart r txt atts st0"
  define st7 where "st7 = (case generationTry r txt st6 of Inl (e, s) \<Rightarrow> generationCatch e s | Inr s \<Rightarrow> s)"
  have ex: "executeSingleGeneration r txt atts st = (None, generationFinally st7)"
    using assms by (simp add: executeSingleGeneration_def st0_def st6_def st7_def)
  have m: "messages st6 \<noteq> []" by (simp add: st6_def)
  have st7_frame: "apiKey st7 = apiKey st6 \<and> settings st7 = settings st6 \<and> batchMode st7 = batchMode st6
    \<and> batchCount st7 = batchCount st6 \<and> batchProgress st7 = batchProgress st6
    \<and> toasts st7 = toasts st6 \<and> requests st7 = requests st6 \<and> delays st7 = delays st6
    \<and> invocations st7 = invocations st6
    \<and> console st7 = console st6 @
         (case failure r of None \<Rightarrow> []
          | Some e \<Rightarrow> [if err_name e = lit ''AbortError'' \<or> abortController st6 = Some True
                       then UserStopped else GenerationFailed e])"
  proof (cases "failure r")
    case None
    with generationTry_outcome [OF m, of r "txt"] obtain s where s: "generationTry r txt st6 = Inr s"
      by auto
    with generationTry_frame [of r "txt" st6 s] have "apiKey s = apiKey st6 \<and> settings s = settings st6 \<and> batchMode s = batchMode st6
    \<and> batchCount s = batchCount st6 \<and> batchProgress s = batchProgress st6
    \<and> abortController s = abortController st6 \<and> toasts s = toasts st6
    \<and> console s = console st6 \<and> requests s = requests st6 \<and> delays s = delays st6
    \<and> invocations s = invocations st6 \<and> (messages s = [] \<longleftrightarrow> messages st6 = [])"
      by blast
    with s None show ?thesis by (simp add: st7_def)
  next
    case (Some e)
    with generationTry_outcome [OF m, of r "txt"] obtain s where s: "generationTry r txt st6 = Inl (e, s)"
      by auto
    with generationTry_frame [of r "txt" st6 s e] have "apiKey s = apiKey st6 \<and> settings s = settings st6 \<and> batchMode s = batchMode st6
    \<and> batchCount s = batchCount st6 \<and> batchProgress s = batchProgress st6
    \<and> abortController s = abortController st6 \<and> toasts s = toasts st6
    \<and> console s = console st6 \<and> requests s = requests st6 \<and> delays s = delays st6
    \<and> invocations s = invocations st6 \<and> (messages s = [] \<longleftrightarrow> messages st6 = [])"
      by blast
    with s Some show ?thesis by (simp add: st7_def)
  qed
  show "fst (executeSingleGeneration r txt atts st) = None" by (simp add: ex)
  show "apiKey (snd (executeSingleGeneration r txt atts st)) = apiKey st"
    using st7_frame by (simp add: ex st6_def st0_def)
  show "settings (snd (executeSingleGeneration r txt atts st)) = settings st"
    using st7_frame by (simp add: ex st6_def st0_def)
  show "batchMode (snd (executeSingleGeneration r txt atts st)) = batchMode st"
    using st7_frame by (simp add: ex st6_def st0_def)
  show "batchCount (snd (executeSingleGeneration r txt atts st)) = batchCount st"
    using st7_frame by (simp add: ex st6_def st0_def)
  show "batchProgress (snd (executeSingleGeneration r txt atts st)) = batchProgress st"
    using st7_frame by (simp add: ex st6_def st0_def)
  show "toasts (snd (executeSingleGeneration r txt atts st)) = toasts st"
    using st7_frame by (simp add: ex st6_def st0_def)
  show "delays (snd (executeSingleGeneration r txt atts st)) = delays st"
    using st7_frame by (simp add: ex st6_def st0_def)
  show "invocations (snd (executeSingleGeneration r txt atts st)) =
           invocations st @ [\<lparr>task_text = txt, task_attachments = atts\<rparr>]"
    using st7_frame by (simp add: ex st6_def st0_def)
  show "requests (snd (executeSingleGeneration r txt atts st)) = requests st @
           [\<lparr>req_streaming = streamResponse (settings st), req_history = messages st,
             req_text = txt, req_images = map (\<lambda>a. (base64Data a, mimeType a)) atts,
             req_aborted = stopPressed r\<rparr>]"
    using st7_frame by (simp add: ex st6_def st0_def)
  show "console (snd (executeSingleGeneration r txt atts st)) = console st @ expectedConsole r j"
    using st7_frame assms by (simp add: ex st6_def st0_def expectedConsole_def split: option.splits)
  show "abortController (snd (executeSingleGeneration r txt atts st)) = None"
    by (simp add: ex)
qed

lemma executeSingleGeneration_updates:
  assumes "\<not> streamResponse (settings st)" and "historyError r = None" and "failure r = None"
  shows "updates (snd (executeSingleGeneration r txt atts st)) =
     updates st @ [(modelParts r, False,
        if list_ex thought (modelParts r) then Some (seconds (endTime r - startTime r)) else None)]"
  using assms
  by (simp add: executeSingleGeneration_def generationTry_def Let_def)


section \<open>The batch loop\<close>

lemma batchStep_fields:
  assumes "i < length tasks"
  shows "apiKey (batchStep r tasks i st) = apiKey st
    \<and> settings (batchStep r tasks i st) = settings st
    \<and> batchMode (batchStep r tasks i st) = batchMode st
    \<and> batchCount (batchStep r tasks i st) = batchCount st
    \<and> batchProgress (batchStep r tasks i st) = (i + 1, length tasks)
    \<and> toasts (batchStep r tasks i st) = toasts st
    \<and> invocations (batchStep r tasks i st) = invocations st @ [tasks ! i]
    \<and> console (batchStep r tasks i st) = console st @ expectedConsole r i
    \<and> map req_text (requests (batchStep r tasks i st)) =
           map req_text (requests st) @ (if historyError r = None then [task_text (tasks ! i)] else [])
    \<and> map req_aborted (requests (batchStep r tasks i st)) =
           map req_aborted (requests st) @ (if historyError r = None then [stopPressed r] else [])"
proof (cases "historyError r")
  case None
  let ?st1 = "st\<lparr>batchProgress := (i + 1, length tasks)\<rparr>"
  let ?x = "executeSingleGeneration r (task_text (tasks ! i)) (task_attachments (tasks ! i)) ?st1"
  note run = executeSingleGeneration_runs [OF None, of "task_text (tasks ! i)" "task_attachments (tasks ! i)" ?st1]
  obtain s where x: "?x = (None, s)"
    using run(1) by (cases ?x) simp
  note after = run [unfolded x snd_conv]
  have b: "batchStep r tasks i st =
      (if int i < int (length tasks) - 1 then s\<lparr>delays := delays s @ [500]\<rparr> else s)"
    unfolding batchStep_def Let_def x by simp
  show ?thesis
    by (simp add: b None after(2-10) after(11) [of i])
next
  case (Some e)
  have b: "batchStep r tasks i st =
      st\<lparr>batchProgress := (i + 1, length tasks),
         invocations := invocations st @ [tasks ! i],
         console := console st @ [BatchTaskFailed (i + 1) e]\<rparr>"
    by (simp add: batchStep_def Let_def executeSingleGeneration_throws [OF Some])
  show ?thesis
    by (simp add: b Some expectedConsole_def)
qed

lemma batchLoop_done: "\<not> i < length tasks \<Longrightarrow> batchLoop env tasks i st = st"
  by (subst batchLoop.simps) simp

lemma batchLoop_next:
  "i < length tasks \<Longrightarrow>
     batchLoop env tasks i st = batchLoop env tasks (i + 1) (batchStep (env i) tasks i st)"
  by (subst batchLoop.simps) simp

lemma batchLoop_fields:
  "toasts (batchLoop env tasks i st) = toasts st
   \<and> apiKey (batchLoop env tasks i st) = apiKey st
   \<and> batchMode (batchLoop env tasks i st) = batchMode st
   \<and> invocations (batchLoop env tasks i st) = invocations st @ drop i tasks
   \<and> console (batchLoop env tasks i st) =
       console st @ concat (map (\<lambda>j. expectedConsole (env j) j) [i..<length tasks])
   \<and> map req_text (requests (batchLoop env tasks i st)) =
       map req_text (requests st) @
       map (\<lambda>j. task_text (tasks ! j)) (filter (\<lambda>j. historyError (env j) = None) [i..<length tasks])
   \<and> map req_aborted (requests (batchLoop env tasks i st)) =
       map req_aborted (requests st) @
       map (\<lambda>j. stopPressed (env j)) (filter (\<lambda>j. historyError (env j) = None) [i..<length tasks])
   \<and> batchProgress (batchLoop env tasks i st) =
       (if i < length tasks then (length tasks, length tasks) else batchProgress st)"
proof (induction env tasks i st rule: batchLoop.induct)
  case (1 env tasks i st)
  show ?case
  proof (cases "i < length tasks")
    case False
    then show ?thesis by (simp add: batchLoop_done)
  next
    case True
    note ih = 1 [OF True]
    note step = batchStep_fields [OF True, of "env i" st]
    have d: "drop i tasks = tasks ! i # drop (Suc i) tasks"
      using True by (simp add: Cons_nth_drop_Suc)
    have u: "[i..<length tasks] = i # [Suc i..<length tasks]"
      using True by (simp add: upt_conv_Cons)
    show ?thesis
      unfolding batchLoop_next [OF True]
      using ih True by (auto simp: step d u)
  qed
qed

lemma handleSend_batch:
  assumes "apiKey st \<noteq> []" and "batchMode st \<noteq> Off"
    and "handleSend_tasks (batchMode st) (batchCount st) txt atts = Inr tasks"
  shows "fst (handleSend env txt atts st) = None
    \<and> invocations (snd (handleSend env txt atts st)) = invocations st @ tasks
    \<and> console (snd (handleSend env txt atts st)) =
         console st @ concat (map (\<lambda>j. expectedConsole (env j) j) [0..<length tasks])
    \<and> map req_text (requests (snd (handleSend env txt atts st))) =
         map req_text (requests st) @
         map (\<lambda>j. task_text (tasks ! j)) (filter (\<lambda>j. historyError (env j) = None) [0..<length tasks])
    \<and> map req_aborted (requests (snd (handleSend env txt atts st))) =
         map req_aborted (requests st) @
         map (\<lambda>j. stopPressed (env j)) (filter (\<lambda>j. historyError (env j) = None) [0..<length tasks])
    \<and> batchProgress (snd (handleSend env txt atts st)) = (0, 0)
    \<and> batchMode (snd (handleSend env txt atts st)) = Off
    \<and> toasts (snd (handleSend env txt atts st)) =
         toasts st @ [(BatchStarted (length tasks), Info), (BatchFinished (length tasks), Success)]"
proof -
  let ?st2 = "st\<lparr>batchProgress := (0, length tasks),
                  toasts := toasts st @ [(BatchStarted (length tasks), Info)]\<rparr>"
  let ?st3 = "batchLoop env tasks 0 ?st2"
  have h: "handleSend env txt atts st =
      (None, ?st3\<lparr>batchProgress := (0, 0), batchMode := Off,
                   toasts := toasts ?st3 @ [(BatchFinished (length tasks), Success)]\<rparr>)"
    using assms by (simp add: handleSend_def Let_def)
  note loop = batchLoop_fields [of env tasks 0 ?st2]
  show ?thesis
    unfolding h using loop by simp
qed







lemma generationFinally_messages [simp]:
  "messages (generationFinally st) = messages st"
  by (simp add: generationFinally_def)






text \<open>Facts about the sample inputs.\<close>

lemma sample_replies:
  "historyError quietReply = None" "failure quietReply = None" "stopPressed quietReply = False"
  "historyError failingReply = None" "failure failingReply = Some networkError"
  "stopPressed failingReply = False"
  "historyError cancelledReply = None" "failure cancelledReply = Some abortError"
  "stopPressed cancelledReply = True"
  "err_name networkError \<noteq> lit ''AbortError''"
  by (simp_all add: quietReply_def failingReply_def cancelledReply_def networkError_def lit_def)

lemma repeat_cat:
  "handleSend_tasks Normal 2 (lit ''cat'') [] = Inr [catTask, catTask]"
  "handleSend_tasks Normal 3 (lit ''cat'') [] = Inr [catTask, catTask, catTask]"
  "handleSend_tasks Normal 4 (lit ''cat'') [] = Inr [catTask, catTask, catTask, catTask]"
  by (simp_all add: handleSend_tasks_def repeatLoop_eq catTask_def eval_nat_numeral)


lemma idleApp_fields:
  "apiKey idleApp \<noteq> []" "toasts idleApp = []" "console idleApp = []" "requests idleApp = []"
  "invocations idleApp = []" "updates idleApp = []" "\<not> streamResponse (settings idleApp)"
  by (simp_all add: idleApp_def lit_def)

text \<open>
  C6. In every batch, whatever each generation does (it may succeed, fail, throw ahead of
  its request or be stopped by the user), \<open>handleSend\<close> returns normally and
  \<open>executeSingleGeneration\<close> has been invoked for every task, in order: a failure never
  keeps a later task from being attempted. Each failure is logged on the console, by the
  generation's own \<open>catch\<close> clause or by that of the loop. After the last task the
  progress is reset to (0, 0) and the notifications of the batch are the start message
  followed by exactly one completion message, which carries the number of tasks.
\<close>

theorem batch_attempts_every_task_and_reports_once:
  assumes "apiKey st \<noteq> []" and "batchMode st \<noteq> Off"
    and "handleSend_tasks (batchMode st) (batchCount st) txt atts = Inr tasks"
  shows "fst (handleSend env txt atts st) = None
    \<and> invocations (snd (handleSend env txt atts st)) = invocations st @ tasks
    \<and> console (snd (handleSend env txt atts st)) =
         console st @ concat (map (\<lambda>j. expectedConsole (env j) j) [0..<length tasks])
    \<and> (\<forall>j<length tasks. \<forall>e. historyError (env j) = None \<and> failure (env j) = Some e
           \<and> err_name e \<noteq> lit ''AbortError'' \<and> \<not> stopPressed (env j) \<longrightarrow>
           GenerationFailed e \<in> set (console (snd (handleSend env txt atts st))))
    \<and> (\<forall>j<length tasks. \<forall>e. historyError (env j) = Some e \<longrightarrow>
           BatchTaskFailed (j + 1) e \<in> set (console (snd (handleSend env txt atts st))))
    \<and> batchProgress (snd (handleSend env txt atts st)) = (0, 0)
    \<and> toasts (snd (handleSend env txt atts st)) =
         toasts st @ [(BatchStarted (length tasks), Info), (BatchFinished (length tasks), Success)]"
proof -
  note b = handleSend_batch [OF assms, of env]
  have c: "console (snd (handleSend env txt atts st)) =
         console st @ concat (map (\<lambda>j. expectedConsole (env j) j) [0..<length tasks])"
    using b by blast
  have l1: "GenerationFailed e \<in> set (console (snd (handleSend env txt atts st)))"
    if "j < length tasks" "historyError (env j) = None" "failure (env j) = Some e"
       "err_name e \<noteq> lit ''AbortError''" "\<not> stopPressed (env j)" for j e
  proof -
    have "GenerationFailed e \<in> set (expectedConsole (env j) j)"
      using that by (simp add: expectedConsole_def)
    moreover have "j \<in> set [0..<length tasks]" using that by simp
    ultimately show ?thesis unfolding c by auto
  qed
  have l2: "BatchTaskFailed (j + 1) e \<in> set (console (snd (handleSend env txt atts st)))"
    if "j < length tasks" "historyError (env j) = Some e" for j e
  proof -
    have "BatchTaskFailed (j + 1) e \<in> set (expectedConsole (env j) j)"
      using that by (simp add: expectedConsole_def)
    moreover have "j \<in> set [0..<length tasks]" using that by simp
    ultimately show ?thesis unfolding c by auto
  qed
  from b l1 l2 show ?thesis by blast
qed

theorem batch_attempts_every_task_and_reports_once_witness:
  "apiKey (idleApp\<lparr>batchMode := Normal, batchCount := 3\<rparr>) \<noteq> []
   \<and> batchMode (idleApp\<lparr>batchMode := Normal, batchCount := 3\<rparr>) \<noteq> Off
   \<and> handleSend_tasks Normal 3 (lit ''cat'') [] = Inr [catTask, catTask, catTask]
   \<and> invocations (snd (handleSend secondFails (lit ''cat'') [] (idleApp\<lparr>batchMode := Normal, batchCount := 3\<rparr>)))
        = [catTask, catTask, catTask]
   \<and> console (snd (handleSend secondFails (lit ''cat'') [] (idleApp\<lparr>batchMode := Normal, batchCount := 3\<rparr>)))
        = [GenerationFailed networkError]
   \<and> batchProgress (snd (handleSend secondFails (lit ''cat'') [] (idleApp\<lparr>batchMode := Normal, batchCount := 3\<rparr>)))
        = (0, 0)
   \<and> toasts (snd (handleSend secondFails (lit ''cat'') [] (idleApp\<lparr>batchMode := Normal, batchCount := 3\<rparr>)))
        = [(BatchStarted 3, Info), (BatchFinished 3, Success)]"
proof -
  let ?st = "idleApp\<lparr>batchMode := Normal, batchCount := 3\<rparr>"
  have 1: "apiKey ?st \<noteq> []" by (simp add: idleApp_fields)
  have 2: "batchMode ?st \<noteq> Off" by simp
  have 3: "handleSend_tasks (batchMode ?st) (batchCount ?st) (lit ''cat'') [] = Inr [catTask, catTask, catTask]"
    by (simp add: repeat_cat)
  note t = batch_attempts_every_task_and_reports_once [OF 1 2 3, of secondFails]
  let ?R = "snd (handleSend secondFails (lit ''cat'') [] ?st)"
  have c: "concat (map (\<lambda>j. expectedConsole (secondFails j) j) [0..<length [catTask, catTask, catTask]])
      = [GenerationFailed networkError]"
    by (simp add: expectedConsole_def secondFails_def sample_replies)
  from t have "console ?R =
      console ?st @ concat (map (\<lambda>j. expectedConsole (secondFails j) j) [0..<length [catTask, catTask, catTask]])"
    by blast
  then have k: "console ?R = [GenerationFailed networkError]"
    unfolding c by (simp add: idleApp_fields)
  from t have i: "invocations ?R = invocations ?st @ [catTask, catTask, catTask]"
    by blast
  from t have p: "batchProgress ?R = (0, 0)"
    by blast
  from t have o: "toasts ?R = toasts ?st @
      [(BatchStarted (length [catTask, catTask, catTask]), Info),
       (BatchFinished (length [catTask, catTask, catTask]), Success)]"
    by blast
  from 1 2 k i p o show ?thesis
    by (simp add: idleApp_fields repeat_cat)
qed




text \<open>
  C8, as amended. For a result that was not streamed, the thinking duration handed to
  \<open>updateLastMessage\<close> is the total elapsed time of the call whenever the result holds at
  least one thought part, whether or not it also holds other parts; when the result holds
  no thought part, no duration is recorded. The time at which the first part that is no
  thought arrives plays no role.
\<close>

theorem non_streaming_thinking_duration:
  "\<not> streamResponse (settings st) \<and> historyError r = None \<and> failure r = None \<longrightarrow>
     updates (snd (executeSingleGeneration r txt atts st)) =
       updates st @ [(modelParts r, False,
          if list_ex thought (modelParts r) then Some (seconds (endTime r - startTime r)) else None)]"
  by (simp add: executeSingleGeneration_updates)

theorem non_streaming_thinking_duration_witness:
  "\<not> streamResponse (settings idleApp)
   \<and> historyError thoughtOnlyReply = None \<and> failure thoughtOnlyReply = None
   \<and> updates (snd (executeSingleGeneration thoughtOnlyReply (lit ''cat'') [] idleApp)) =
        [([thinkingPart], False, Some 3)]
   \<and> updates (snd (executeSingleGeneration quietReply (lit ''cat'') [] idleApp)) =
        [([], False, None)]"
  using non_streaming_thinking_duration [of idleApp thoughtOnlyReply "lit ''cat''" "[]"]
    non_streaming_thinking_duration [of idleApp quietReply "lit ''cat''" "[]"]
  by (simp add: idleApp_fields thoughtOnlyReply_def quietReply_def thinkingPart_def seconds_def)

text \<open>
  The claim as worded fails for a result with a thought part followed by a text part: the
  recorded duration is the total elapsed time of three seconds although the result is not
  made of thoughts only.
\<close>

theorem thinking_duration_mixed_result_counterexample:
  "updates (snd (executeSingleGeneration mixedReply (lit ''cat'') [] idleApp)) =
        [([thinkingPart, answerPart], False, Some (seconds (endTime mixedReply - startTime mixedReply)))]
   \<and> seconds (endTime mixedReply - startTime mixedReply) = 3
   \<and> \<not> list_all thought [thinkingPart, answerPart]"
proof -
  have "updates (snd (executeSingleGeneration mixedReply (lit ''cat'') [] idleApp)) =
     updates idleApp @ [(modelParts mixedReply, False,
        if list_ex thought (modelParts mixedReply)
        then Some (seconds (endTime mixedReply - startTime mixedReply)) else None)]"
    by (rule executeSingleGeneration_updates)
       (simp_all add: idleApp_fields mixedReply_def quietReply_def)
  then show ?thesis
    by (simp add: idleApp_fields mixedReply_def quietReply_def thinkingPart_def answerPart_def
          textPart_def seconds_def)
qed

end
